theory Spec2Isabelle
  imports Complex_Main "HOL-Library.Sublist"
begin

section \<open>Python strings\<close>

text \<open>
  A Python \<open>str\<close> is a sequence of Unicode code points, and \<open>len\<close> counts code
  points. The messages of \<open>ezynotify.py\<close> contain code points above U+00FF (the bell,
  the arrows, the coloured circles, the bullet), so a string is a list of code points
  here, not a list of 8-bit characters.
\<close>

type_synonym ustr = "nat list"

definition u :: "string \<Rightarrow> ustr" where
  "u s = map of_char s"

definition nl :: ustr where
  "nl = [10]"

text \<open>
  \<open>str.isspace\<close> on one code point. The list is the whole of CPython's table: the same
  predicate decides \<open>\s\<close> in a \<open>str\<close> pattern, \<open>str.strip()\<close> and \<open>str.split()\<close>.
\<close>

definition isspace :: "nat \<Rightarrow> bool" where
  "isspace c \<longleftrightarrow>
     (9 \<le> c \<and> c \<le> 13) \<or> (28 \<le> c \<and> c \<le> 32) \<or> c = 133 \<or> c = 160 \<or> c = 5760 \<or>
     (8192 \<le> c \<and> c \<le> 8202) \<or> c = 8232 \<or> c = 8233 \<or> c = 8239 \<or> c = 8287 \<or> c = 12288"

definition rstrip :: "ustr \<Rightarrow> ustr" where
  "rstrip s = rev (dropWhile isspace (rev s))"

definition strip :: "ustr \<Rightarrow> ustr" where
  "strip s = rstrip (dropWhile isspace s)"

text \<open>\<open>s.split()\<close>: the maximal runs of non-whitespace, in order.\<close>

fun split_from :: "ustr \<Rightarrow> ustr \<Rightarrow> ustr list" where
  "split_from word [] = (if word = [] then [] else [word])"
| "split_from word (c # cs) =
     (if isspace c then (if word = [] then split_from [] cs else word # split_from [] cs)
      else split_from (word @ [c]) cs)"

definition split :: "ustr \<Rightarrow> ustr list" where
  "split s = split_from [] s"

text \<open>\<open>sep.join(xs)\<close>.\<close>

fun join :: "ustr \<Rightarrow> ustr list \<Rightarrow> ustr" where
  "join sep [] = []"
| "join sep [x] = x"
| "join sep (x # y # ys) = x @ sep @ join sep (y # ys)"

text \<open>
  \<open>str.lower\<close>, exact on the code points below U+0100 (ASCII and Latin-1); the case
  tables of the rest of Unicode are not reproduced and other code points are left as
  they are.
\<close>

definition lower_cp :: "nat \<Rightarrow> nat" where
  "lower_cp c = (if (65 \<le> c \<and> c \<le> 90) \<or> (192 \<le> c \<and> c \<le> 214) \<or> (216 \<le> c \<and> c \<le> 222)
                 then c + 32 else c)"

definition lower :: "ustr \<Rightarrow> ustr" where
  "lower s = map lower_cp s"

text \<open>
  \<open>str.title\<close>, exact on ASCII: a letter that follows a non-letter is upper-cased, a
  letter that follows a letter is lower-cased. Code points above U+007F count as
  non-letters here.
\<close>

definition isalpha_ascii :: "nat \<Rightarrow> bool" where
  "isalpha_ascii c \<longleftrightarrow> (65 \<le> c \<and> c \<le> 90) \<or> (97 \<le> c \<and> c \<le> 122)"

fun title_from :: "bool \<Rightarrow> ustr \<Rightarrow> ustr" where
  "title_from prev_cased [] = []"
| "title_from prev_cased (c # cs) =
     (if isalpha_ascii c
      then (if prev_cased then (if c \<le> 90 then c + 32 else c) else (if 97 \<le> c then c - 32 else c))
             # title_from True cs
      else c # title_from False cs)"

definition title :: "ustr \<Rightarrow> ustr" where
  "title s = title_from False s"

text \<open>\<open>k in t\<close> on strings is \<^const>\<open>sublist\<close>; \<open>s.startswith(p)\<close> is \<^const>\<open>prefix\<close>.\<close>

section \<open>The standard library's \<open>difflib\<close>\<close>

text \<open>
  \<open>get_diff\<close> calls \<open>difflib.ndiff\<close> on two word lists and reads the positions of the
  lines of the result. The library is modelled as CPython 3.11 has it:
  \<open>SequenceMatcher\<close> (\<open>__chain_b\<close>, \<open>find_longest_match\<close>, \<open>get_matching_blocks\<close>,
  \<open>get_opcodes\<close>, the three ratios) and \<open>Differ\<close> (\<open>compare\<close>, \<open>_dump\<close>,
  \<open>_plain_replace\<close>, \<open>_fancy_replace\<close>, \<open>_fancy_helper\<close>, \<open>_qformat\<close>).
  The ratios are floats \<open>2.0 * M / T\<close> in the library and rationals here; the two
  orders agree on every pair of sequences shorter than \<open>2^26\<close>.
\<close>

type_synonym match = "nat \<times> nat \<times> nat"

text \<open>\<open>__chain_b\<close>: the junk elements of \<open>b\<close>, and its popular ones (\<open>autojunk\<close>, from 200
  elements on); neither is a key of \<open>b2j\<close>.\<close>

definition bjunk :: "('a \<Rightarrow> bool) \<Rightarrow> 'a list \<Rightarrow> 'a \<Rightarrow> bool" where
  "bjunk isjunk b x \<longleftrightarrow> x \<in> set b \<and> isjunk x"

definition bpopular :: "('a \<Rightarrow> bool) \<Rightarrow> 'a list \<Rightarrow> 'a \<Rightarrow> bool" where
  "bpopular isjunk b x \<longleftrightarrow>
     200 \<le> length b \<and> x \<in> set b \<and> \<not> isjunk x \<and> length b div 100 + 1 < count_list b x"

definition in_b2j :: "('a \<Rightarrow> bool) \<Rightarrow> 'a list \<Rightarrow> 'a \<Rightarrow> bool" where
  "in_b2j isjunk b x \<longleftrightarrow> x \<in> set b \<and> \<not> bjunk isjunk b x \<and> \<not> bpopular isjunk b x"

text \<open>
  The inner loop of \<open>find_longest_match\<close>, on the slices \<open>a[alo:ahi]\<close> and \<open>b[blo:bhi]\<close>.
  \<open>j2len\<close> is kept as a list over the positions of the slice of \<open>b\<close>, with 0 for a key
  that the dictionary does not have (\<open>j2len.get(j-1, 0)\<close>).
\<close>

definition newj2len :: "('a \<Rightarrow> bool) \<Rightarrow> 'a \<Rightarrow> nat list \<Rightarrow> 'a list \<Rightarrow> nat list" where
  "newj2len key ai j2len bs =
     map (\<lambda>(p, bj). if bj = ai \<and> key bj then Suc p else 0) (zip (0 # j2len) bs)"

fun scan_row :: "nat \<Rightarrow> nat \<Rightarrow> nat list \<Rightarrow> match \<Rightarrow> match" where
  "scan_row i j [] best = best"
| "scan_row i j (k # ks) (besti, bestj, bestsize) =
     scan_row i (Suc j) ks
       (if bestsize < k then (Suc i - k, Suc j - k, k) else (besti, bestj, bestsize))"

fun longest_loop :: "('a \<Rightarrow> bool) \<Rightarrow> 'a list \<Rightarrow> 'a list \<Rightarrow> nat \<Rightarrow> nat list \<Rightarrow> match \<Rightarrow> match" where
  "longest_loop key [] bs i j2len best = best"
| "longest_loop key (ai # as) bs i j2len best =
     (let new = newj2len key ai j2len bs
      in longest_loop key as bs (Suc i) new (scan_row i 0 new best))"

text \<open>The four \<open>while\<close> loops that extend the best match, first over elements that are
  not junk, then over junk.\<close>

function extend_left :: "('a \<Rightarrow> bool) \<Rightarrow> 'a list \<Rightarrow> 'a list \<Rightarrow> match \<Rightarrow> match" where
  "extend_left ok as bs (besti, bestj, bestsize) =
     (if 0 < besti \<and> 0 < bestj \<and> ok (bs ! (bestj - 1)) \<and> as ! (besti - 1) = bs ! (bestj - 1)
      then extend_left ok as bs (besti - 1, bestj - 1, Suc bestsize)
      else (besti, bestj, bestsize))"
  by pat_completeness auto
termination
  by (relation "measure (\<lambda>(ok, as, bs, besti, bestj, bestsize). besti)") auto

function extend_right :: "('a \<Rightarrow> bool) \<Rightarrow> 'a list \<Rightarrow> 'a list \<Rightarrow> match \<Rightarrow> match" where
  "extend_right ok as bs (besti, bestj, bestsize) =
     (if besti + bestsize < length as \<and> bestj + bestsize < length bs \<and>
         ok (bs ! (bestj + bestsize)) \<and> as ! (besti + bestsize) = bs ! (bestj + bestsize)
      then extend_right ok as bs (besti, bestj, Suc bestsize)
      else (besti, bestj, bestsize))"
  by pat_completeness auto
termination
  by (relation "measure (\<lambda>(ok, as, bs, besti, bestj, bestsize). length as - (besti + bestsize))") auto

definition longest_in :: "('a \<Rightarrow> bool) \<Rightarrow> ('a \<Rightarrow> bool) \<Rightarrow> 'a list \<Rightarrow> 'a list \<Rightarrow> match" where
  "longest_in key junk as bs =
     (let m0 = longest_loop key as bs 0 (replicate (length bs) 0) (0, 0, 0);
          m1 = extend_left (\<lambda>x. \<not> junk x) as bs m0;
          m2 = extend_right (\<lambda>x. \<not> junk x) as bs m1;
          m3 = extend_left junk as bs m2
      in extend_right junk as bs m3)"

definition find_longest_match ::
    "('a \<Rightarrow> bool) \<Rightarrow> 'a list \<Rightarrow> 'a list \<Rightarrow> nat \<Rightarrow> nat \<Rightarrow> nat \<Rightarrow> nat \<Rightarrow> match" where
  "find_longest_match isjunk a b alo ahi blo bhi =
     (case longest_in (in_b2j isjunk b) (bjunk isjunk b)
             (take (ahi - alo) (drop alo a)) (take (bhi - blo) (drop blo b)) of
        (i, j, k) \<Rightarrow> (alo + i, blo + j, k))"

text \<open>
  The match that \<open>find_longest_match\<close> returns lies inside the two ranges. The
  recursion of \<open>get_matching_blocks\<close> below terminates by this bound.
\<close>

definition fits :: "nat \<Rightarrow> nat \<Rightarrow> match \<Rightarrow> bool" where
  "fits n m best = (case best of (i, j, k) \<Rightarrow> i + k \<le> n \<and> j + k \<le> m)"

lemma newj2len_length:
  "length j2len = length bs \<Longrightarrow> length (newj2len key ai j2len bs) = length bs"
  by (simp add: newj2len_def)

lemma newj2len_bound:
  assumes "length j2len = length bs" and "\<forall>j<length bs. j2len ! j \<le> i \<and> j2len ! j \<le> Suc j"
    and "j < length bs"
  shows "newj2len key ai j2len bs ! j \<le> Suc i \<and> newj2len key ai j2len bs ! j \<le> Suc j"
proof (cases j)
  case 0
  with assms show ?thesis by (simp add: newj2len_def)
next
  case (Suc j')
  with assms have "j2len ! j' \<le> i \<and> j2len ! j' \<le> Suc j'" by simp
  with Suc assms show ?thesis by (simp add: newj2len_def)
qed

lemma scan_row_fits:
  "fits (Suc i) m best \<Longrightarrow> \<forall>t<length ks. ks ! t \<le> Suc i \<and> ks ! t \<le> Suc (j + t) \<Longrightarrow>
   j + length ks \<le> m \<Longrightarrow> fits (Suc i) m (scan_row i j ks best)"
proof (induction ks arbitrary: j best)
  case Nil
  then show ?case by simp
next
  case (Cons k ks)
  obtain bi bj bk where best: "best = (bi, bj, bk)" by (cases best)
  from Cons.prems(2) have k: "k \<le> Suc i" "k \<le> Suc j" by auto
  from Cons.prems(2) have rest: "\<forall>t<length ks. ks ! t \<le> Suc i \<and> ks ! t \<le> Suc (Suc j + t)"
    by auto
  have "fits (Suc i) m (if bk < k then (Suc i - k, Suc j - k, k) else (bi, bj, bk))"
    using Cons.prems(1,3) k best by (simp add: fits_def)
  from Cons.IH [OF this rest] Cons.prems(3) show ?case by (simp add: best)
qed

lemma longest_loop_fits:
  "length j2len = length bs \<Longrightarrow> \<forall>j<length bs. j2len ! j \<le> i \<and> j2len ! j \<le> Suc j \<Longrightarrow>
   fits i (length bs) best \<Longrightarrow> fits (i + length as) (length bs) (longest_loop key as bs i j2len best)"
proof (induction as arbitrary: i j2len best)
  case Nil
  then show ?case by simp
next
  case (Cons ai as)
  let ?new = "newj2len key ai j2len bs"
  have len: "length ?new = length bs" using Cons.prems(1) by (rule newj2len_length)
  have row: "\<forall>j<length bs. ?new ! j \<le> Suc i \<and> ?new ! j \<le> Suc j"
    using newj2len_bound [OF Cons.prems(1,2)] by blast
  have "fits (Suc i) (length bs) best" using Cons.prems(3) by (auto simp: fits_def)
  then have "fits (Suc i) (length bs) (scan_row i 0 ?new best)"
    using row len by (intro scan_row_fits) auto
  from Cons.IH [OF len row this] show ?case by (simp add: Let_def)
qed

lemma extend_left_fits: "fits n m best \<Longrightarrow> fits n m (extend_left ok as bs best)"
proof (induction ok as bs best rule: extend_left.induct)
  case (1 ok as bs besti bestj bestsize)
  then show ?case by (auto simp: fits_def)
qed

lemma extend_right_fits:
  "fits (length as) (length bs) best \<Longrightarrow> fits (length as) (length bs) (extend_right ok as bs best)"
proof (induction ok as bs best rule: extend_right.induct)
  case (1 ok as bs besti bestj bestsize)
  then show ?case by (auto simp: fits_def)
qed

lemma longest_in_fits: "fits (length as) (length bs) (longest_in key junk as bs)"
proof -
  have "fits (0 + length as) (length bs) (longest_loop key as bs 0 (replicate (length bs) 0) (0, 0, 0))"
    by (rule longest_loop_fits) (simp_all add: fits_def)
  then show ?thesis
    by (simp add: longest_in_def Let_def extend_left_fits extend_right_fits)
qed

lemma find_longest_match_bounds:
  assumes "find_longest_match isjunk a b alo ahi blo bhi = (i, j, k)" and "k \<noteq> 0"
  shows "alo \<le> i \<and> i + k \<le> ahi \<and> blo \<le> j \<and> j + k \<le> bhi"
proof -
  let ?as = "take (ahi - alo) (drop alo a)" and ?bs = "take (bhi - blo) (drop blo b)"
  obtain i' j' k' where m: "longest_in (in_b2j isjunk b) (bjunk isjunk b) ?as ?bs = (i', j', k')"
    by (cases "longest_in (in_b2j isjunk b) (bjunk isjunk b) ?as ?bs")
  have "fits (length ?as) (length ?bs) (i', j', k')"
    using longest_in_fits [of ?as ?bs] m by metis
  then have "i' + k' \<le> ahi - alo" "j' + k' \<le> bhi - blo" by (auto simp: fits_def)
  moreover have "i = alo + i'" "j = blo + j'" "k = k'"
    using assms(1) m by (auto simp: find_longest_match_def)
  ultimately show ?thesis using assms(2) by auto
qed

text \<open>
  \<open>get_matching_blocks\<close>. The library keeps the ranges still to look at on a stack and
  sorts the blocks at the end; the recursion below visits the left range, the block and
  the right range in that order, which is the sorted order.
\<close>

function match_queue ::
    "('a \<Rightarrow> bool) \<Rightarrow> 'a list \<Rightarrow> 'a list \<Rightarrow> nat \<Rightarrow> nat \<Rightarrow> nat \<Rightarrow> nat \<Rightarrow> match list" where
  "match_queue isjunk a b alo ahi blo bhi =
     (case find_longest_match isjunk a b alo ahi blo bhi of
        (i, j, k) \<Rightarrow>
          if k = 0 then []
          else (if alo < i \<and> blo < j then match_queue isjunk a b alo i blo j else [])
               @ [(i, j, k)]
               @ (if i + k < ahi \<and> j + k < bhi then match_queue isjunk a b (i + k) ahi (j + k) bhi
                  else []))"
  by pat_completeness auto
termination
  by (relation "measure (\<lambda>(isjunk, a, b, alo, ahi, blo, bhi). (ahi - alo) + (bhi - blo))")
     (auto dest!: find_longest_match_bounds [OF sym])

text \<open>Adjacent blocks are collapsed, and the sentinel \<open>(la, lb, 0)\<close> closes the list.\<close>

fun collapse :: "match \<Rightarrow> match list \<Rightarrow> match list" where
  "collapse (i1, j1, k1) [] = (if k1 \<noteq> 0 then [(i1, j1, k1)] else [])"
| "collapse (i1, j1, k1) ((i2, j2, k2) # ms) =
     (if i1 + k1 = i2 \<and> j1 + k1 = j2 then collapse (i1, j1, k1 + k2) ms
      else (if k1 \<noteq> 0 then [(i1, j1, k1)] else []) @ collapse (i2, j2, k2) ms)"

definition get_matching_blocks :: "('a \<Rightarrow> bool) \<Rightarrow> 'a list \<Rightarrow> 'a list \<Rightarrow> match list" where
  "get_matching_blocks isjunk a b =
     collapse (0, 0, 0) (match_queue isjunk a b 0 (length a) 0 (length b))
     @ [(length a, length b, 0)]"

datatype tag = Replace | Delete | Insert | Equal

type_synonym opcode = "tag \<times> nat \<times> nat \<times> nat \<times> nat"

fun opcodes_from :: "nat \<Rightarrow> nat \<Rightarrow> match list \<Rightarrow> opcode list" where
  "opcodes_from i j [] = []"
| "opcodes_from i j ((ai, bj, sz) # ms) =
     (if i < ai \<and> j < bj then [(Replace, i, ai, j, bj)]
      else if i < ai then [(Delete, i, ai, j, bj)]
      else if j < bj then [(Insert, i, ai, j, bj)]
      else [])
     @ (if sz \<noteq> 0 then [(Equal, ai, ai + sz, bj, bj + sz)] else [])
     @ opcodes_from (ai + sz) (bj + sz) ms"

definition get_opcodes :: "('a \<Rightarrow> bool) \<Rightarrow> 'a list \<Rightarrow> 'a list \<Rightarrow> opcode list" where
  "get_opcodes isjunk a b = opcodes_from 0 0 (get_matching_blocks isjunk a b)"

text \<open>The three ratios. \<open>quick_ratio\<close> counts the multiset intersection with the
  dictionary \<open>avail\<close>, whose values may go below zero.\<close>

definition calculate_ratio :: "nat \<Rightarrow> nat \<Rightarrow> rat" where
  "calculate_ratio matches len = (if len \<noteq> 0 then 2 * of_nat matches / of_nat len else 1)"

definition ratio :: "('a \<Rightarrow> bool) \<Rightarrow> 'a list \<Rightarrow> 'a list \<Rightarrow> rat" where
  "ratio isjunk a b =
     calculate_ratio (sum_list (map (\<lambda>(i, j, k). k) (get_matching_blocks isjunk a b)))
       (length a + length b)"

fun quick_matches :: "('a \<Rightarrow> int option) \<Rightarrow> 'a list \<Rightarrow> 'a list \<Rightarrow> nat" where
  "quick_matches avail [] b = 0"
| "quick_matches avail (elt # as) b =
     (let numb = (case avail elt of Some n \<Rightarrow> n | None \<Rightarrow> int (count_list b elt))
      in (if 0 < numb then 1 else 0) + quick_matches (avail(elt \<mapsto> numb - 1)) as b)"

definition quick_ratio :: "'a list \<Rightarrow> 'a list \<Rightarrow> rat" where
  "quick_ratio a b = calculate_ratio (quick_matches Map.empty a b) (length a + length b)"

definition real_quick_ratio :: "'a list \<Rightarrow> 'a list \<Rightarrow> rat" where
  "real_quick_ratio a b = calculate_ratio (min (length a) (length b)) (length a + length b)"

text \<open>\<open>Differ\<close>. A line is a string; \<open>_dump\<close> is \<open>'%s %s' % (tag, x[i])\<close>.\<close>

definition dump :: "ustr \<Rightarrow> ustr list \<Rightarrow> ustr list" where
  "dump tg xs = map (\<lambda>x. tg @ u '' '' @ x) xs"

definition plain_replace :: "ustr list \<Rightarrow> ustr list \<Rightarrow> ustr list" where
  "plain_replace as bs =
     (if length bs < length as then dump (u ''+'') bs @ dump (u ''-'') as
      else dump (u ''-'') as @ dump (u ''+'') bs)"

definition IS_CHARACTER_JUNK :: "nat \<Rightarrow> bool" where
  "IS_CHARACTER_JUNK ch \<longleftrightarrow> ch = 32 \<or> ch = 9"

text \<open>
  The two nested loops of \<open>_fancy_replace\<close> that look for the best pair. The state is
  \<open>best_ratio\<close>, \<open>(best_i, best_j)\<close> and \<open>(eqi, eqj)\<close>; a variable not yet bound is \<open>None\<close>.
  Positions count from the start of the two blocks.
\<close>

type_synonym search = "rat \<times> (nat \<times> nat) option \<times> (nat \<times> nat) option"

fun search_i :: "(nat \<Rightarrow> bool) \<Rightarrow> ustr \<Rightarrow> nat \<Rightarrow> nat \<Rightarrow> ustr list \<Rightarrow> search \<Rightarrow> search" where
  "search_i charjunk bj j i [] st = st"
| "search_i charjunk bj j i (ai # as) (best_ratio, best, eq) =
     search_i charjunk bj j (Suc i) as
       (if ai = bj then (best_ratio, best, (if eq = None then Some (i, j) else eq))
        else if best_ratio < real_quick_ratio ai bj \<and> best_ratio < quick_ratio ai bj \<and>
                best_ratio < ratio charjunk ai bj
             then (ratio charjunk ai bj, Some (i, j), eq)
             else (best_ratio, best, eq))"

fun search_j :: "(nat \<Rightarrow> bool) \<Rightarrow> ustr list \<Rightarrow> nat \<Rightarrow> ustr list \<Rightarrow> search \<Rightarrow> search" where
  "search_j charjunk as j [] st = st"
| "search_j charjunk as j (bj # bs) st =
     search_j charjunk as (Suc j) bs (search_i charjunk bj j 0 as st)"

text \<open>The intraline marks of the synch pair, and \<open>_qformat\<close>.\<close>

fun atag :: "opcode \<Rightarrow> ustr" where
  "atag (Replace, ai1, ai2, bj1, bj2) = replicate (ai2 - ai1) 94"
| "atag (Delete, ai1, ai2, bj1, bj2) = replicate (ai2 - ai1) 45"
| "atag (Insert, ai1, ai2, bj1, bj2) = []"
| "atag (Equal, ai1, ai2, bj1, bj2) = replicate (ai2 - ai1) 32"

fun btag :: "opcode \<Rightarrow> ustr" where
  "btag (Replace, ai1, ai2, bj1, bj2) = replicate (bj2 - bj1) 94"
| "btag (Delete, ai1, ai2, bj1, bj2) = []"
| "btag (Insert, ai1, ai2, bj1, bj2) = replicate (bj2 - bj1) 43"
| "btag (Equal, ai1, ai2, bj1, bj2) = replicate (bj2 - bj1) 32"

definition keep_original_ws :: "ustr \<Rightarrow> ustr \<Rightarrow> ustr" where
  "keep_original_ws s tag_s = map (\<lambda>(c, tag_c). if tag_c = 32 \<and> isspace c then c else tag_c) (zip s tag_s)"

definition qformat :: "ustr \<Rightarrow> ustr \<Rightarrow> ustr \<Rightarrow> ustr \<Rightarrow> ustr list" where
  "qformat aline bline atags btags =
     (let atags' = rstrip (keep_original_ws aline atags);
          btags' = rstrip (keep_original_ws bline btags)
      in [u ''- '' @ aline] @ (if atags' \<noteq> [] then [u ''? '' @ atags' @ nl] else [])
         @ [u ''+ '' @ bline] @ (if btags' \<noteq> [] then [u ''? '' @ btags' @ nl] else []))"

definition intraline :: "(nat \<Rightarrow> bool) \<Rightarrow> ustr \<Rightarrow> ustr \<Rightarrow> ustr list" where
  "intraline charjunk aelt belt =
     (let ops = get_opcodes charjunk aelt belt
      in qformat aelt belt (concat (map atag ops)) (concat (map btag ops)))"

definition in_block :: "nat \<Rightarrow> nat \<Rightarrow> (nat \<times> nat) option \<Rightarrow> bool" where
  "in_block n m p = (case p of None \<Rightarrow> True | Some (i, j) \<Rightarrow> i < n \<and> j < m)"

lemma search_i_in_block:
  "search_i charjunk bj j i as st = st' \<Longrightarrow> i + length as \<le> n \<Longrightarrow> j < m \<Longrightarrow>
   in_block n m (fst (snd st)) \<Longrightarrow> in_block n m (snd (snd st)) \<Longrightarrow>
   in_block n m (fst (snd st')) \<and> in_block n m (snd (snd st'))"
proof (induction as arbitrary: i st)
  case Nil
  then show ?case by simp
next
  case (Cons ai as)
  obtain r p q where st: "st = (r, p, q)" by (cases st)
  show ?case
    using Cons.prems Cons.IH [of "Suc i"] unfolding st
    by (auto simp: in_block_def split: if_splits)
qed

lemma search_j_in_block:
  "search_j charjunk as j bs st = st' \<Longrightarrow> j + length bs \<le> m \<Longrightarrow>
   in_block (length as) m (fst (snd st)) \<Longrightarrow> in_block (length as) m (snd (snd st)) \<Longrightarrow>
   in_block (length as) m (fst (snd st')) \<and> in_block (length as) m (snd (snd st'))"
proof (induction bs arbitrary: j st)
  case Nil
  then show ?case by simp
next
  case (Cons bj bs)
  have "in_block (length as) m (fst (snd (search_i charjunk bj j 0 as st))) \<and>
        in_block (length as) m (snd (snd (search_i charjunk bj j 0 as st)))"
    using Cons.prems by (intro search_i_in_block [OF refl]) auto
  with Cons.prems Cons.IH [of "Suc j" "search_i charjunk bj j 0 as st"] show ?case by auto
qed

lemma search_in_block:
  assumes "search_j charjunk as 0 bs (r0, None, None) = (r, best, eq)"
  shows "in_block (length as) (length bs) best \<and> in_block (length as) (length bs) eq"
  using search_j_in_block [OF assms, of "length bs"] by (simp add: in_block_def)

text \<open>\<open>_fancy_replace\<close> and \<open>_fancy_helper\<close>, on the blocks \<open>a[alo:ahi]\<close> and \<open>b[blo:bhi]\<close>.\<close>

function fancy_replace :: "(nat \<Rightarrow> bool) \<Rightarrow> ustr list \<Rightarrow> ustr list \<Rightarrow> ustr list"
  and fancy_helper :: "(nat \<Rightarrow> bool) \<Rightarrow> ustr list \<Rightarrow> ustr list \<Rightarrow> ustr list" where
  "fancy_replace charjunk as bs =
     (case search_j charjunk as 0 bs (74 / 100, None, None) of
        (best_ratio, best, eq) \<Rightarrow>
          (case (if best_ratio < 75 / 100 then eq else best) of
             None \<Rightarrow> plain_replace as bs
           | Some (best_i, best_j) \<Rightarrow>
               fancy_helper charjunk (take best_i as) (take best_j bs)
               @ (if best_ratio < 75 / 100 then [u ''  '' @ as ! best_i]
                  else intraline charjunk (as ! best_i) (bs ! best_j))
               @ fancy_helper charjunk (drop (Suc best_i) as) (drop (Suc best_j) bs)))"
| "fancy_helper charjunk as bs =
     (if as \<noteq> [] then (if bs \<noteq> [] then fancy_replace charjunk as bs else dump (u ''-'') as)
      else if bs \<noteq> [] then dump (u ''+'') bs
      else [])"
  by pat_completeness auto
termination
  by (relation "measure (\<lambda>x. case x of Inl (c, as, bs) \<Rightarrow> 2 * (length as + length bs)
                                      | Inr (c, as, bs) \<Rightarrow> 2 * (length as + length bs) + 1)")
     (auto dest!: search_in_block [OF sym] simp: in_block_def split: if_splits)

definition slice :: "'a list \<Rightarrow> nat \<Rightarrow> nat \<Rightarrow> 'a list" where
  "slice xs lo hi = take (hi - lo) (drop lo xs)"

fun compare_op :: "(nat \<Rightarrow> bool) \<Rightarrow> ustr list \<Rightarrow> ustr list \<Rightarrow> opcode \<Rightarrow> ustr list" where
  "compare_op charjunk a b (Replace, alo, ahi, blo, bhi) =
     fancy_replace charjunk (slice a alo ahi) (slice b blo bhi)"
| "compare_op charjunk a b (Delete, alo, ahi, blo, bhi) = dump (u ''-'') (slice a alo ahi)"
| "compare_op charjunk a b (Insert, alo, ahi, blo, bhi) = dump (u ''+'') (slice b blo bhi)"
| "compare_op charjunk a b (Equal, alo, ahi, blo, bhi) = dump (u '' '') (slice a alo ahi)"

definition compare :: "(ustr \<Rightarrow> bool) \<Rightarrow> (nat \<Rightarrow> bool) \<Rightarrow> ustr list \<Rightarrow> ustr list \<Rightarrow> ustr list" where
  "compare linejunk charjunk a b = concat (map (compare_op charjunk a b) (get_opcodes linejunk a b))"

definition ndiff :: "ustr list \<Rightarrow> ustr list \<Rightarrow> ustr list" where
  "ndiff a b = compare (\<lambda>line. False) IS_CHARACTER_JUNK a b"

section \<open>\<open>ezynotify.py\<close>: sentences, the word diff and the messages\<close>

text \<open>
  \<open>split_sentences\<close>: \<open>re.split(r'(?<=[.!?])\s+', text)\<close> cuts the text at every run of
  whitespace that follows \<open>.\<close>, \<open>!\<close> or \<open>?\<close>; the pieces are stripped and the empty ones
  dropped. \<open>re_split\<close> carries the character before the current position and the piece
  read so far.
\<close>

definition is_terminal :: "nat \<Rightarrow> bool" where
  "is_terminal c \<longleftrightarrow> c = 46 \<or> c = 33 \<or> c = 63"

function re_split :: "nat option \<Rightarrow> ustr \<Rightarrow> ustr \<Rightarrow> ustr list" where
  "re_split prev piece [] = [piece]"
| "re_split prev piece (c # cs) =
     (if isspace c \<and> (case prev of None \<Rightarrow> False | Some p \<Rightarrow> is_terminal p)
      then piece # re_split (Some (last (c # takeWhile isspace cs))) [] (dropWhile isspace cs)
      else re_split (Some c) (piece @ [c]) cs)"
  by pat_completeness auto
termination
  by (relation "measure (\<lambda>(prev, piece, rest). length rest)")
     (auto simp: length_dropWhile_le less_Suc_eq_le)

definition split_sentences :: "ustr \<Rightarrow> ustr list" where
  "split_sentences text = filter (\<lambda>s. s \<noteq> []) (map strip (re_split None [] text))"

text \<open>
  A Change record, as \<open>get_diff\<close> builds it and as the \<open>Updates\<close> column stores it. An
  entry read back from the store may lack the \<open>context\<close> key.
\<close>

record change =
  ch_change :: ustr
  ch_action :: ustr
  ch_context :: "ustr option"
  ch_time :: ustr

text \<open>
  The body of the loop of \<open>get_diff\<close> for one pair of sentences (lines 98 to 135): the
  text of the change and its context, or nothing. \<open>change_indices\<close> are the positions
  of the \<open>+\<close> lines in the output of \<open>ndiff\<close>, as \<open>enumerate(word_diff)\<close> counts them.
\<close>

definition plus_lines :: "ustr list \<Rightarrow> (nat \<times> ustr) list" where
  "plus_lines word_diff =
     filter (\<lambda>(i, word_line). prefix (u ''+ '') word_line) (zip [0..<length word_diff] word_diff)"

definition bold :: "nat list \<Rightarrow> nat \<times> ustr \<Rightarrow> ustr" where
  "bold change_indices p =
     (case p of (i, word) \<Rightarrow>
        if i \<in> set change_indices then u ''<b>'' @ word @ u ''</b>'' else word)"

definition diff_sentence :: "ustr \<Rightarrow> ustr \<Rightarrow> (ustr \<times> ustr) option" where
  "diff_sentence old_sent new_sent =
     (if old_sent \<noteq> new_sent then
        (let old_words = split old_sent;
             new_words = split new_sent;
             word_diff = ndiff old_words new_words;
             changed_words = map (\<lambda>(i, word_line). drop 2 word_line) (plus_lines word_diff);
             change_indices = map fst (plus_lines word_diff)
         in if changed_words \<noteq> [] then
              (let first_change = Min (set change_indices);
                   last_change = Max (set change_indices);
                   context_start = max 0 (first_change - 2);
                   context_end = min (length new_words) (last_change + 3);
                   context = slice new_words context_start context_end;
                   bolded_context =
                     map (bold change_indices)
                       (zip [context_start..<context_start + length context] context)
               in Some (join (u '' '') changed_words, join (u '' '') bolded_context))
            else None)
      else None)"

text \<open>
  \<open>datetime.now()\<close> is read once for every change appended. The clock is the sequence
  \<open>now\<close> of its formatted readings, and a counter says how many have been taken.
\<close>

fun get_diff_loop :: "(nat \<Rightarrow> ustr) \<Rightarrow> nat \<Rightarrow> (ustr \<times> ustr) list \<Rightarrow> change list \<times> nat" where
  "get_diff_loop now t [] = ([], t)"
| "get_diff_loop now t ((old_sent, new_sent) # pairs) =
     (case diff_sentence old_sent new_sent of
        None \<Rightarrow> get_diff_loop now t pairs
      | Some (chg, ctx) \<Rightarrow>
          (case get_diff_loop now (Suc t) pairs of
             (changes, t') \<Rightarrow>
               (\<lparr>ch_change = chg, ch_action = u ''added'', ch_context = Some ctx, ch_time = now t\<rparr>
                  # changes, t')))"

definition get_diff :: "(nat \<Rightarrow> ustr) \<Rightarrow> nat \<Rightarrow> ustr \<Rightarrow> ustr \<Rightarrow> change list \<times> nat" where
  "get_diff now t old_text new_text =
     get_diff_loop now t (zip (split_sentences old_text) (split_sentences new_text))"

text \<open>\<open>format_updates_message\<close>: the text before the length check (lines 143 to 160),
  then the check.\<close>

definition change_lines :: "change \<Rightarrow> ustr" where
  "change_lines c =
     (if ch_action c = u ''added'' then [0x1F7E2] else [0x1F534])
     @ u '' <b>'' @ title (ch_action c) @ u '':</b> '' @ ch_change c @ nl
     @ (case ch_context c of
          None \<Rightarrow> []
        | Some ctx \<Rightarrow> if ctx \<noteq> [] then u ''   <i>Context:</i> '' @ ctx @ nl else [])"

definition updates_message_text :: "ustr \<Rightarrow> change list \<Rightarrow> change list \<Rightarrow> ustr" where
  "updates_message_text url updates new_detected_changes =
     [0x1F504] @ u '' <b>Website Changes Detected</b>'' @ nl @ nl
     @ u ''<b>URL:</b> '' @ url @ nl @ nl
     @ (if new_detected_changes \<noteq> []
        then u ''<b>New Changes:</b>'' @ nl @ concat (map change_lines new_detected_changes) @ nl
        else [])
     @ (if updates \<noteq> []
        then u ''<b>Previous Changes:</b>'' @ nl
             @ concat (map change_lines (drop (length updates - 5) updates))
        else [])"

definition truncation_marker :: ustr where
  "truncation_marker = nl @ nl @ u ''... (message truncated due to length)''"

definition format_updates_message :: "ustr \<Rightarrow> change list \<Rightarrow> change list \<Rightarrow> ustr" where
  "format_updates_message url updates new_detected_changes =
     (let message = updates_message_text url updates new_detected_changes
      in if 4096 < length message then take 4000 message @ truncation_marker else message)"

text \<open>The two messages that \<open>process_row\<close> builds in place (lines 221 to 231 and 269 to
  272).\<close>

definition keyword_found_message :: "ustr list \<Rightarrow> ustr \<Rightarrow> ustr \<Rightarrow> ustr" where
  "keyword_found_message found_keywords url timestamp =
     (if length found_keywords = 1
      then [0x1F514] @ u '' <b>Keyword Found!</b>'' @ nl @ nl
           @ u ''<b>Keyword:</b> '' @ hd found_keywords @ nl
           @ u ''<b>URL:</b> '' @ url @ nl
           @ u ''<b>Found at:</b> '' @ timestamp
      else [0x1F514] @ u '' <b>Multiple Keywords Found!</b>'' @ nl @ nl
           @ u ''<b>Keywords:</b>'' @ nl
           @ join nl (map (\<lambda>kw. [0x2022] @ u '' '' @ kw) found_keywords) @ nl @ nl
           @ u ''<b>URL:</b> '' @ url @ nl
           @ u ''<b>Found at:</b> '' @ timestamp)"

definition short_updates_message :: "ustr \<Rightarrow> ustr \<Rightarrow> ustr" where
  "short_updates_message url timestamp =
     [0x1F504] @ u '' <b>Website Changes Detected</b>'' @ nl @ nl
     @ u ''<b>URL:</b> '' @ url @ nl
     @ u ''<b>Changes detected at:</b> '' @ timestamp @ nl @ nl
     @ [0x2139, 0xFE0F]
     @ u '' Detailed updates are available but not shown. Enable detailed updates to see them.''"

section \<open>\<open>ezynotify.py\<close>: one row, one cycle\<close>

text \<open>
  A row of the table \<open>ezynotify\<close>, with the columns that \<open>main\<close> selects. A column that
  \<open>process_row\<close> reads with \<open>row.get(...) or default\<close> is an option, \<open>None\<close> for null.
  The column \<open>keywords\<close> (the field \<open>keywords_dict\<close>) holds an object \<open>{"keywords": [...]}\<close>; \<open>None\<close> stands for null,
  for the empty object and for an object without that key, which the code reads alike.
  A null in a boolean column reads as false.
\<close>

record found_entry =
  keyword :: ustr
  foundAt :: ustr

record row =
  row_id :: nat
  url :: ustr
  keywords_dict :: "ustr list option"
  reference :: "ustr option"
  foundKeyword :: "found_entry list option"
  Updates :: "change list option"
  telegramID :: "ustr option"
  shouldSendDetailedUpdates :: bool
  checkUpdates :: bool
  shouldContinueCheck :: bool
  completed :: bool

text \<open>The dictionary \<open>update_data\<close>: a key that is not set is \<open>None\<close>.\<close>

record update_data =
  u_reference :: "ustr option"
  u_keywords :: "ustr list option"
  u_foundKeyword :: "found_entry list option"
  u_completed :: "bool option"
  u_isUpdated :: "bool option"
  u_Updates :: "change list option"

definition no_update :: update_data where
  "no_update = \<lparr>u_reference = None, u_keywords = None, u_foundKeyword = None,
                 u_completed = None, u_isUpdated = None, u_Updates = None\<rparr>"

datatype exn = APIError | NameError

text \<open>
  What lies outside the program: the page behind a URL (\<open>None\<close> when Selenium raises),
  the clock, the two bot tokens, the rows that the store lists (or the exception of the
  listing) and whether an update of the store raises.
\<close>

record env =
  page_text :: "ustr \<Rightarrow> ustr option"
  now :: "nat \<Rightarrow> ustr"
  TELEGRAM_BOT_TOKEN :: "ustr option"
  TELEGRAM_UPDATES_BOT_TOKEN :: "ustr option"
  select_rows :: "exn + row list"
  update_raises :: "nat \<Rightarrow> update_data \<Rightarrow> bool"

text \<open>
  What the program does to the outside: the URLs it fetched, the messages it posted to
  Telegram (chat, text, \<open>is_update\<close>), the updates it asked of the store (row id and
  fields), the number of clock readings taken, and the exceptions that \<open>main\<close> caught
  and printed. The other console output is not modelled.
\<close>

record world =
  fetched :: "ustr list"
  sent :: "(ustr option \<times> ustr \<times> bool) list"
  store_calls :: "(nat \<times> update_data) list"
  ticks :: nat
  caught :: "exn list"

definition truthy :: "ustr option \<Rightarrow> bool" where
  "truthy x = (case x of None \<Rightarrow> False | Some s \<Rightarrow> s \<noteq> [])"

text \<open>\<open>send_telegram_notification\<close>: nothing is posted without a token or a chat id; a
  failed post is printed and swallowed.\<close>

definition send_telegram_notification :: "env \<Rightarrow> ustr option \<Rightarrow> ustr \<Rightarrow> bool \<Rightarrow> world \<Rightarrow> world" where
  "send_telegram_notification e chat_id message is_update w =
     (let bot_token = (if is_update then TELEGRAM_UPDATES_BOT_TOKEN e else TELEGRAM_BOT_TOKEN e)
      in if \<not> truthy bot_token \<or> \<not> truthy chat_id then w
         else w\<lparr>sent := sent w @ [(chat_id, message, is_update)]\<rparr>)"

text \<open>\<open>get_text_from_url\<close>: the lower-cased text of the page, or the empty string when
  anything raised.\<close>

definition get_text_from_url :: "env \<Rightarrow> ustr \<Rightarrow> world \<Rightarrow> ustr \<times> world" where
  "get_text_from_url e url' w =
     ((case page_text e url' of None \<Rightarrow> [] | Some text \<Rightarrow> lower text),
      w\<lparr>fetched := fetched w @ [url']\<rparr>)"

text \<open>The locals that \<open>process_row\<close> reads from the row (lines 172 to 175 and 189).\<close>

definition old_reference :: "row \<Rightarrow> ustr" where
  "old_reference r = (case reference r of None \<Rightarrow> [] | Some ref \<Rightarrow> ref)"

definition existing_found :: "row \<Rightarrow> found_entry list" where
  "existing_found r = (case foundKeyword r of None \<Rightarrow> [] | Some fs \<Rightarrow> fs)"

definition updates_log :: "row \<Rightarrow> change list" where
  "updates_log r = (case Updates r of None \<Rightarrow> [] | Some us \<Rightarrow> us)"

definition keyword_list :: "row \<Rightarrow> ustr list" where
  "keyword_list r = map lower (case keywords_dict r of None \<Rightarrow> [] | Some ks \<Rightarrow> ks)"

text \<open>
  The loop over \<open>keyword_list\<close> (lines 208 to 215). \<open>timestamp\<close> is bound only once a
  keyword has matched; \<open>remaining_keywords.remove(keyword)\<close> takes the first occurrence
  away.
\<close>

record kw_state =
  new_found :: "found_entry list"
  found_keywords :: "ustr list"
  remaining_keywords :: "ustr list"
  timestamp :: "ustr option"
  readings :: nat

fun keyword_loop :: "(nat \<Rightarrow> ustr) \<Rightarrow> ustr \<Rightarrow> ustr list \<Rightarrow> kw_state \<Rightarrow> kw_state" where
  "keyword_loop clock new_text [] s = s"
| "keyword_loop clock new_text (kw # kws) s =
     keyword_loop clock new_text kws
       (if sublist kw new_text
        then s\<lparr>new_found := new_found s @ [\<lparr>keyword = kw, foundAt = clock (readings s)\<rparr>],
               found_keywords := found_keywords s @ [kw],
               remaining_keywords := remove1 kw (remaining_keywords s),
               timestamp := Some (clock (readings s)),
               readings := Suc (readings s)\<rparr>
        else s)"

text \<open>
  Lines 203 to 243 of \<open>process_row\<close>: the keywords. The result is the exception raised
  (reading \<open>timestamp\<close> while it is unbound would raise \<open>NameError\<close>), \<open>update_data\<close> and
  the world.
\<close>

definition process_keywords ::
    "env \<Rightarrow> row \<Rightarrow> ustr \<Rightarrow> update_data \<Rightarrow> world \<Rightarrow> exn option \<times> update_data \<times> world" where
  "process_keywords e r new_text ud w =
     (if keyword_list r \<noteq> [] then
        (let s = keyword_loop (now e) new_text (keyword_list r)
                   \<lparr>new_found = [], found_keywords = [], remaining_keywords = keyword_list r,
                    timestamp = None, readings = ticks w\<rparr>;
             w1 = w\<lparr>ticks := readings s\<rparr>;
             ud1 = ud\<lparr>u_keywords := Some (remaining_keywords s),
                      u_foundKeyword := Some (existing_found r @ new_found s)\<rparr>;
             ud2 = (if remaining_keywords s = [] \<and> \<not> shouldContinueCheck r
                    then ud1\<lparr>u_completed := Some True\<rparr> else ud1)
         in if truthy (telegramID r) \<and> found_keywords s \<noteq> [] then
              (case timestamp s of
                 None \<Rightarrow> (Some NameError, ud, w1)
               | Some ts \<Rightarrow>
                   (None, ud2,
                    send_telegram_notification e (telegramID r)
                      (keyword_found_message (found_keywords s) (url r) ts) False w1))
            else (None, ud2, w1))
      else (None, ud, w))"

text \<open>Lines 246 to 275: the updates. The result is \<open>update_data\<close>, \<open>new_detected_changes\<close>
  and the world.\<close>

definition process_updates ::
    "env \<Rightarrow> row \<Rightarrow> ustr \<Rightarrow> update_data \<Rightarrow> world \<Rightarrow> update_data \<times> change list \<times> world" where
  "process_updates e r new_text ud w =
     (if checkUpdates r then
        (if strip (old_reference r) \<noteq> [] \<and> new_text \<noteq> old_reference r then
           (case get_diff (now e) (ticks w) (old_reference r) new_text of
              (text_diffs, t) \<Rightarrow>
                (let updates_log = updates_log r @ text_diffs;
                     new_detected_changes = text_diffs;
                     w1 = w\<lparr>ticks := t\<rparr>;
                     ud1 = ud\<lparr>u_isUpdated := Some True, u_Updates := Some updates_log\<rparr>
                 in if truthy (telegramID r) then
                      (if shouldSendDetailedUpdates r then
                         (ud1, new_detected_changes,
                          send_telegram_notification e (telegramID r)
                            (format_updates_message (url r) updates_log new_detected_changes) True w1)
                       else
                         (ud1, new_detected_changes,
                          send_telegram_notification e (telegramID r)
                            (short_updates_message (url r) (now e (ticks w1))) True
                            (w1\<lparr>ticks := Suc (ticks w1)\<rparr>)))
                    else (ud1, new_detected_changes, w1)))
         else (ud, [], w))
      else (ud, [], w))"

text \<open>Lines 277 to 280: the update of the store, asked only when \<open>update_data\<close> has a key.
  An exception of the store leaves \<open>process_row\<close>.\<close>

definition push_update :: "env \<Rightarrow> row \<Rightarrow> update_data \<Rightarrow> world \<Rightarrow> exn option \<times> world" where
  "push_update e r ud w =
     (if ud \<noteq> no_update then
        ((if update_raises e (row_id r) ud then Some APIError else None),
         w\<lparr>store_calls := store_calls w @ [(row_id r, ud)]\<rparr>)
      else (None, w))"

definition process_row :: "env \<Rightarrow> row \<Rightarrow> world \<Rightarrow> exn option \<times> world" where
  "process_row e r w =
     (if completed r then (None, w)
      else if keyword_list r = [] \<and> \<not> checkUpdates r then (None, w)
      else
        (case get_text_from_url e (url r) w of
           (new_text, w1) \<Rightarrow>
             (let ud0 = (if new_text \<noteq> old_reference r
                         then no_update\<lparr>u_reference := Some new_text\<rparr> else no_update)
              in case process_keywords e r new_text ud0 w1 of
                   (Some x, ud1, w2) \<Rightarrow> (Some x, w2)
                 | (None, ud1, w2) \<Rightarrow>
                     (case process_updates e r new_text ud1 w2 of
                        (ud2, new_detected_changes, w3) \<Rightarrow> push_update e r ud2 w3))))"

text \<open>
  \<open>main\<close>: one \<open>try\<close> around the listing and the whole loop. An exception that leaves
  \<open>process_row\<close> ends the loop and is printed by the handler.
\<close>

fun process_rows :: "env \<Rightarrow> row list \<Rightarrow> world \<Rightarrow> exn option \<times> world" where
  "process_rows e [] w = (None, w)"
| "process_rows e (r # rs) w =
     (case process_row e r w of
        (Some x, w') \<Rightarrow> (Some x, w')
      | (None, w') \<Rightarrow> process_rows e rs w')"

definition main :: "env \<Rightarrow> world \<Rightarrow> world" where
  "main e w =
     (case select_rows e of
        Inl x \<Rightarrow> w\<lparr>caught := caught w @ [x]\<rparr>
      | Inr data \<Rightarrow>
          if data \<noteq> [] then
            (case process_rows e data w of
               (Some x, w') \<Rightarrow> w'\<lparr>caught := caught w' @ [x]\<rparr>
             | (None, w') \<Rightarrow> w')
          else w)"

text \<open>The store keeps the columns that an update does not name (partial update by row
  id, as the Supabase client does it).\<close>

definition apply_update :: "update_data \<Rightarrow> row \<Rightarrow> row" where
  "apply_update ud r =
     r\<lparr>reference := (case u_reference ud of None \<Rightarrow> reference r | Some x \<Rightarrow> Some x),
       keywords_dict := (case u_keywords ud of None \<Rightarrow> keywords_dict r | Some x \<Rightarrow> Some x),
       foundKeyword := (case u_foundKeyword ud of None \<Rightarrow> foundKeyword r | Some x \<Rightarrow> Some x),
       completed := (case u_completed ud of None \<Rightarrow> completed r | Some x \<Rightarrow> x),
       Updates := (case u_Updates ud of None \<Rightarrow> Updates r | Some x \<Rightarrow> Some x)\<rparr>"

text \<open>What one call added to the world: the updates asked of the store and the
  messages posted.\<close>

definition new_calls :: "world \<Rightarrow> world \<Rightarrow> update_data list" where
  "new_calls w w' = map snd (drop (length (store_calls w)) (store_calls w'))"

definition new_sent :: "world \<Rightarrow> world \<Rightarrow> (ustr option \<times> ustr \<times> bool) list" where
  "new_sent w w' = drop (length (sent w)) (sent w')"

definition is_update_of :: "ustr option \<times> ustr \<times> bool \<Rightarrow> bool" where
  "is_update_of m = (case m of (chat_id, message, is_update) \<Rightarrow> is_update)"

section \<open>Properties\<close>

subsection \<open>Diffing a text against itself\<close>

lemma diff_sentence_same: "diff_sentence s s = None"
  by (simp add: diff_sentence_def)

lemma get_diff_loop_same: "get_diff_loop clock t (zip xs xs) = ([], t)"
  by (induction xs) (simp_all add: diff_sentence_same)

lemma strip_blank: "\<forall>c\<in>set s. isspace c \<Longrightarrow> strip s = []"
  by (auto simp: strip_def rstrip_def dest: set_dropWhileD)

subsection \<open>The keyword loop\<close>

definition hits :: "ustr \<Rightarrow> ustr list \<Rightarrow> ustr list" where
  "hits T kws = filter (\<lambda>kw. sublist kw T) kws"

lemma keyword_loop_new_found:
  "new_found (keyword_loop clock T kws s)
     = new_found s @ map (\<lambda>(i, kw). \<lparr>keyword = kw, foundAt = clock i\<rparr>)
                        (enumerate (readings s) (hits T kws))"
  by (induction kws arbitrary: s) (simp_all add: hits_def)

lemma keyword_loop_found_keywords:
  "found_keywords (keyword_loop clock T kws s) = found_keywords s @ hits T kws"
  by (induction kws arbitrary: s) (simp_all add: hits_def)

lemma keyword_loop_remaining:
  "remaining_keywords (keyword_loop clock T kws s) = fold remove1 (hits T kws) (remaining_keywords s)"
  by (induction kws arbitrary: s) (simp_all add: hits_def)

lemma keyword_loop_readings:
  "readings (keyword_loop clock T kws s) = readings s + length (hits T kws)"
  by (induction kws arbitrary: s) (simp_all add: hits_def)

lemma keyword_loop_timestamp:
  "timestamp (keyword_loop clock T kws s)
     = (if hits T kws = [] then timestamp s
        else Some (clock (readings s + (length (hits T kws) - 1))))"
proof (induction kws arbitrary: s)
  case Nil
  show ?case by (simp add: hits_def)
next
  case (Cons kw kws)
  show ?case
  proof (cases "sublist kw T")
    case False
    then show ?thesis using Cons.IH [of s] by (simp add: hits_def)
  next
    case True
    let ?s = "s\<lparr>new_found := new_found s @ [\<lparr>keyword = kw, foundAt = clock (readings s)\<rparr>],
                 found_keywords := found_keywords s @ [kw],
                 remaining_keywords := remove1 kw (remaining_keywords s),
                 timestamp := Some (clock (readings s)),
                 readings := Suc (readings s)\<rparr>"
    have step: "keyword_loop clock T (kw # kws) s = keyword_loop clock T kws ?s"
      using True by simp
    have h: "hits T (kw # kws) = kw # hits T kws" using True by (simp add: hits_def)
    have ih: "timestamp (keyword_loop clock T kws ?s)
                = (if hits T kws = [] then Some (clock (readings s))
                   else Some (clock (Suc (readings s) + (length (hits T kws) - 1))))"
      using Cons.IH [of ?s] by simp
    show ?thesis
    proof (cases "hits T kws")
      case Nil
      then show ?thesis unfolding step h ih by simp
    next
      case (Cons k ks)
      then show ?thesis unfolding step h ih by simp
    qed
  qed
qed

lemmas keyword_loop_fields = keyword_loop_new_found keyword_loop_found_keywords
  keyword_loop_remaining keyword_loop_readings keyword_loop_timestamp

lemma process_keywords_no_exn: "fst (process_keywords e r T ud w) = None"
  by (auto simp: process_keywords_def Let_def keyword_loop_fields split: option.splits)


subsection \<open>The blocks of \<open>process_row\<close>\<close>

definition fetched_text :: "env \<Rightarrow> row \<Rightarrow> ustr" where
  "fetched_text e r = (case page_text e (url r) of None \<Rightarrow> [] | Some text \<Rightarrow> lower text)"

definition found_now :: "env \<Rightarrow> row \<Rightarrow> ustr list" where
  "found_now e r = hits (fetched_text e r) (keyword_list r)"

definition diff_runs :: "env \<Rightarrow> row \<Rightarrow> bool" where
  "diff_runs e r \<longleftrightarrow>
     checkUpdates r \<and> strip (old_reference r) \<noteq> [] \<and> fetched_text e r \<noteq> old_reference r"

lemma send_fields [simp]:
  "store_calls (send_telegram_notification e c m b w) = store_calls w"
  "fetched (send_telegram_notification e c m b w) = fetched w"
  "ticks (send_telegram_notification e c m b w) = ticks w"
  "caught (send_telegram_notification e c m b w) = caught w"
  by (simp_all add: send_telegram_notification_def Let_def)

lemma send_sent:
  "sent (send_telegram_notification e c m b w)
     = sent w @ (if truthy (if b then TELEGRAM_UPDATES_BOT_TOKEN e else TELEGRAM_BOT_TOKEN e) \<and> truthy c
                 then [(c, m, b)] else [])"
  by (simp add: send_telegram_notification_def Let_def)

lemma process_keywords_eq:
  "process_keywords e r T ud w =
     (if keyword_list r = [] then (None, ud, w)
      else
        (None,
         (let ud1 = ud\<lparr>u_keywords := Some (fold remove1 (hits T (keyword_list r)) (keyword_list r)),
                        u_foundKeyword := Some (existing_found r
                          @ map (\<lambda>(i, kw). \<lparr>keyword = kw, foundAt = now e i\<rparr>)
                              (enumerate (ticks w) (hits T (keyword_list r))))\<rparr>
          in if fold remove1 (hits T (keyword_list r)) (keyword_list r) = [] \<and> \<not> shouldContinueCheck r
             then ud1\<lparr>u_completed := Some True\<rparr> else ud1),
         (if truthy (telegramID r) \<and> hits T (keyword_list r) \<noteq> []
          then send_telegram_notification e (telegramID r)
                 (keyword_found_message (hits T (keyword_list r)) (url r)
                    (now e (ticks w + (length (hits T (keyword_list r)) - 1))))
                 False (w\<lparr>ticks := ticks w + length (hits T (keyword_list r))\<rparr>)
          else w\<lparr>ticks := ticks w + length (hits T (keyword_list r))\<rparr>)))"
  by (simp add: process_keywords_def Let_def keyword_loop_fields)

lemma process_updates_idle:
  "\<not> (checkUpdates r \<and> strip (old_reference r) \<noteq> [] \<and> T \<noteq> old_reference r) \<Longrightarrow>
   process_updates e r T ud w = (ud, [], w)"
  by (auto simp: process_updates_def)

lemma process_updates_runs:
  assumes "checkUpdates r" "strip (old_reference r) \<noteq> []" "T \<noteq> old_reference r"
  shows "\<exists>w'. process_updates e r T ud w
           = (ud\<lparr>u_isUpdated := Some True,
                 u_Updates := Some (updates_log r @ fst (get_diff (now e) (ticks w) (old_reference r) T))\<rparr>,
              fst (get_diff (now e) (ticks w) (old_reference r) T), w') \<and>
          store_calls w' = store_calls w \<and> fetched w' = fetched w \<and> caught w' = caught w \<and>
          (\<exists>ms. sent w' = sent w @ ms \<and> (\<forall>m\<in>set ms. is_update_of m))"
  using assms
  by (cases "get_diff (now e) (ticks w) (old_reference r) T")
     (auto simp: process_updates_def Let_def send_sent is_update_of_def)


definition stamped :: "env \<Rightarrow> row \<Rightarrow> world \<Rightarrow> found_entry list" where
  "stamped e r w = map (\<lambda>(i, kw). \<lparr>keyword = kw, foundAt = now e i\<rparr>)
                     (enumerate (ticks w) (found_now e r))"

definition still_pending :: "env \<Rightarrow> row \<Rightarrow> ustr list" where
  "still_pending e r = fold remove1 (found_now e r) (keyword_list r)"

definition staged :: "env \<Rightarrow> row \<Rightarrow> world \<Rightarrow> update_data" where
  "staged e r w =
     \<lparr>u_reference = (if fetched_text e r \<noteq> old_reference r then Some (fetched_text e r) else None),
      u_keywords = (if keyword_list r = [] then None else Some (still_pending e r)),
      u_foundKeyword = (if keyword_list r = [] then None
                        else Some (existing_found r @ stamped e r w)),
      u_completed = (if keyword_list r \<noteq> [] \<and> still_pending e r = [] \<and> \<not> shouldContinueCheck r
                     then Some True else None),
      u_isUpdated = (if diff_runs e r then Some True else None),
      u_Updates = (if diff_runs e r
                   then Some (updates_log r
                          @ fst (get_diff (now e)
                                  (if keyword_list r = [] then ticks w
                                   else ticks w + length (found_now e r))
                                  (old_reference r) (fetched_text e r)))
                   else None)\<rparr>"

definition keyword_posts :: "env \<Rightarrow> row \<Rightarrow> world \<Rightarrow> (ustr option \<times> ustr \<times> bool) list" where
  "keyword_posts e r w =
     (if keyword_list r \<noteq> [] \<and> truthy (telegramID r) \<and> found_now e r \<noteq> [] \<and>
         truthy (TELEGRAM_BOT_TOKEN e)
      then [(telegramID r,
             keyword_found_message (found_now e r) (url r)
               (now e (ticks w + (length (found_now e r) - 1))), False)]
      else [])"

lemma get_text_from_url_eq:
  "get_text_from_url e (url r) w = (fetched_text e r, w\<lparr>fetched := fetched w @ [url r]\<rparr>)"
  by (simp add: get_text_from_url_def fetched_text_def)

lemma process_row_skipped:
  "completed r \<or> (keyword_list r = [] \<and> \<not> checkUpdates r) \<Longrightarrow> process_row e r w = (None, w)"
  by (auto simp: process_row_def)

lemma process_row_active:
  assumes "\<not> completed r" "\<not> (keyword_list r = [] \<and> \<not> checkUpdates r)"
  shows "\<exists>w3 ms. process_row e r w = push_update e r (staged e r w) w3 \<and>
           store_calls w3 = store_calls w \<and> fetched w3 = fetched w @ [url r] \<and>
           caught w3 = caught w \<and> sent w3 = sent w @ keyword_posts e r w @ ms \<and>
           (\<forall>m\<in>set ms. is_update_of m) \<and> (\<not> diff_runs e r \<longrightarrow> ms = [])"
proof -
  let ?T = "fetched_text e r"
  let ?w1 = "w\<lparr>fetched := fetched w @ [url r]\<rparr>"
  let ?ud0 = "if ?T \<noteq> old_reference r then no_update\<lparr>u_reference := Some ?T\<rparr> else no_update"
  obtain ud1 w2 where pk: "process_keywords e r ?T ?ud0 ?w1 = (None, ud1, w2)"
    by (metis process_keywords_no_exn fst_conv prod.exhaust)
  have w2: "store_calls w2 = store_calls w" "fetched w2 = fetched w @ [url r]"
    "caught w2 = caught w" "sent w2 = sent w @ keyword_posts e r w"
    "ticks w2 = (if keyword_list r = [] then ticks w else ticks w + length (found_now e r))"
    using pk unfolding process_keywords_eq
    by (auto simp: send_sent keyword_posts_def found_now_def split: if_splits)
  have ud1: "ud1 = (staged e r w)\<lparr>u_isUpdated := None, u_Updates := None\<rparr>"
    using pk unfolding process_keywords_eq
    by (auto simp: staged_def no_update_def Let_def found_now_def still_pending_def stamped_def
             split: if_splits)
  have pr: "process_row e r w
              = (case process_updates e r ?T ud1 w2 of (ud2, ndc, w3) \<Rightarrow> push_update e r ud2 w3)"
    using assms by (auto simp: process_row_def get_text_from_url_eq Let_def pk)
  show ?thesis
  proof (cases "diff_runs e r")
    case False
    then have "process_updates e r ?T ud1 w2 = (ud1, [], w2)"
      by (intro process_updates_idle) (simp add: diff_runs_def)
    moreover have "ud1 = staged e r w" using False ud1 by (simp add: staged_def)
    ultimately show ?thesis using pr w2 False by auto
  next
    case True
    then have c: "checkUpdates r" "strip (old_reference r) \<noteq> []" "?T \<noteq> old_reference r"
      by (simp_all add: diff_runs_def)
    from process_updates_runs [OF c, of e ud1 w2]
    obtain w3 ms where pu: "process_updates e r ?T ud1 w2
           = (ud1\<lparr>u_isUpdated := Some True,
                  u_Updates := Some (updates_log r @ fst (get_diff (now e) (ticks w2) (old_reference r) ?T))\<rparr>,
              fst (get_diff (now e) (ticks w2) (old_reference r) ?T), w3)"
      and w3: "store_calls w3 = store_calls w2" "fetched w3 = fetched w2" "caught w3 = caught w2"
        "sent w3 = sent w2 @ ms" "\<forall>m\<in>set ms. is_update_of m"
      by blast
    have "ud1\<lparr>u_isUpdated := Some True,
              u_Updates := Some (updates_log r @ fst (get_diff (now e) (ticks w2) (old_reference r) ?T))\<rparr>
            = staged e r w"
      using True ud1 w2(5) by (simp add: staged_def)
    with pu pr have "process_row e r w = push_update e r (staged e r w) w3" by simp
    with w2 w3 True show ?thesis by auto
  qed
qed

definition pendingKeywords :: "row \<Rightarrow> ustr list" where
  "pendingKeywords r = (case keywords_dict r of None \<Rightarrow> [] | Some ks \<Rightarrow> ks)"

lemma keyword_list_pending: "keyword_list r = map lower (pendingKeywords r)"
  by (simp add: keyword_list_def pendingKeywords_def)

lemma push_update_world:
  "store_calls w3 = store_calls w \<Longrightarrow> push_update e r ud w3 = (x, w') \<Longrightarrow>
   new_calls w w' = (if ud \<noteq> no_update then [ud] else []) \<and>
   store_calls w' = store_calls w @ (if ud \<noteq> no_update then [(row_id r, ud)] else []) \<and>
   sent w' = sent w3 \<and> fetched w' = fetched w3 \<and> caught w' = caught w3"
  by (auto simp: push_update_def new_calls_def split: if_splits)

lemma process_row_outcome:
  assumes "process_row e r w = (x, w')"
    and "\<not> completed r" and "\<not> (keyword_list r = [] \<and> \<not> checkUpdates r)"
  shows "\<exists>ms. new_calls w w' = (if staged e r w \<noteq> no_update then [staged e r w] else []) \<and>
           store_calls w' = store_calls w
             @ (if staged e r w \<noteq> no_update then [(row_id r, staged e r w)] else []) \<and>
           fetched w' = fetched w @ [url r] \<and>
           new_sent w w' = keyword_posts e r w @ ms \<and>
           (\<forall>m\<in>set ms. is_update_of m) \<and> (\<not> diff_runs e r \<longrightarrow> ms = [])"
proof -
  from process_row_active [OF assms(2,3), of e w]
  obtain w3 ms where a: "process_row e r w = push_update e r (staged e r w) w3"
    "store_calls w3 = store_calls w" "fetched w3 = fetched w @ [url r]"
    "sent w3 = sent w @ keyword_posts e r w @ ms"
    "\<forall>m\<in>set ms. is_update_of m" "\<not> diff_runs e r \<longrightarrow> ms = []"
    by blast
  from a(1) assms(1) have "push_update e r (staged e r w) w3 = (x, w')" by simp
  from push_update_world [OF a(2) this] a show ?thesis
    by (intro exI [of _ ms]) (simp add: new_sent_def)
qed

lemma process_row_skip_outcome:
  assumes "process_row e r w = (x, w')"
    and "completed r \<or> (keyword_list r = [] \<and> \<not> checkUpdates r)"
  shows "x = None \<and> w' = w"
  using assms process_row_skipped [OF assms(2), of e w] by simp

lemma new_nothing [simp]: "new_calls w w = []" "new_sent w w = []"
  by (simp_all add: new_calls_def new_sent_def)

lemma hits_none: "\<forall>kw\<in>set kws. \<not> sublist kw T \<Longrightarrow> hits T kws = []"
  by (simp add: hits_def)

lemma staged_nonempty: "keyword_list r \<noteq> [] \<Longrightarrow> staged e r w \<noteq> no_update"
proof
  assume "keyword_list r \<noteq> []" and "staged e r w = no_update"
  then have "u_keywords (staged e r w) = u_keywords no_update" by simp
  with \<open>keyword_list r \<noteq> []\<close> show False by (simp add: staged_def no_update_def)
qed


subsection \<open>Example rows\<close>

definition page1 :: "ustr \<Rightarrow> ustr option" where
  "page1 url' = Some (u ''Big sale today. Prices are low.'')"

definition clock1 :: "nat \<Rightarrow> ustr" where
  "clock1 n = u ''2025-01-01 00:00:0'' @ [48 + n]"

definition env1 :: env where
  "env1 = \<lparr>page_text = page1, now = clock1, TELEGRAM_BOT_TOKEN = Some (u ''k1''),
           TELEGRAM_UPDATES_BOT_TOKEN = Some (u ''k2''), select_rows = Inr [],
           update_raises = (\<lambda>i ud. False)\<rparr>"

definition world0 :: world where
  "world0 = \<lparr>fetched = [], sent = [], store_calls = [], ticks = 0, caught = []\<rparr>"

definition row_sale :: row where
  "row_sale = \<lparr>row_id = 1, url = u ''http://a'', keywords_dict = Some [u ''sale'', u ''today''],
              reference = Some (u ''big sale today. prices are low.''), foundKeyword = None,
              Updates = None, telegramID = Some (u ''42''), shouldSendDetailedUpdates = False,
              checkUpdates = False, shouldContinueCheck = False, completed = False\<rparr>"

definition row_done :: row where
  "row_done = row_sale\<lparr>completed := True\<rparr>"

definition row_rent :: row where
  "row_rent = row_sale\<lparr>keywords_dict := Some [u ''rent'', u ''loan'']\<rparr>"

definition row_fresh :: row where
  "row_fresh = row_sale\<lparr>keywords_dict := None, reference := None, checkUpdates := True\<rparr>"

definition row_watch :: row where
  "row_watch = row_fresh\<lparr>reference := Some (u ''big sale today. prices are high.'')\<rparr>"

definition row_blank :: row where
  "row_blank = row_fresh\<lparr>reference := Some (u ''  '')\<rparr>"

lemma lower_page1:
  "lower (u ''Big sale today. Prices are low.'') = u ''big sale today. prices are low.''"
  by code_simp

lemma fetched_text_env1: "fetched_text env1 r = u ''big sale today. prices are low.''"
  by (simp add: fetched_text_def env1_def page1_def lower_page1)

lemma keyword_list_sale: "keyword_list row_sale = [u ''sale'', u ''today'']"
  by code_simp


lemma still_pending_sale: "still_pending env1 row_sale = []"
  by code_simp

lemma keyword_list_rent: "keyword_list row_rent = [u ''rent'', u ''loan'']"
  by code_simp

lemma found_now_rent: "found_now env1 row_rent = []"
  by code_simp


lemma lower_rent: "lower (u ''rent'') = u ''rent''" "lower (u ''loan'') = u ''loan''"
  by code_simp+

lemma absent_rent:
  "\<not> sublist (u ''rent'') (u ''big sale today. prices are low.'')"
  "\<not> sublist (u ''loan'') (u ''big sale today. prices are low.'')"
  by code_simp+

lemma watch_differs:
  "u ''big sale today. prices are low.'' \<noteq> u ''big sale today. prices are high.''"
  by code_simp

lemma strip_watch: "strip (u ''big sale today. prices are high.'') \<noteq> []"
  by code_simp


lemma run_pair: "process_row e r w = (fst (process_row e r w), snd (process_row e r w))"
  by simp

lemma world0_fields: "store_calls world0 = []" "ticks world0 = 0" "sent world0 = []"
  "fetched world0 = []" "caught world0 = []"
  by (simp_all add: world0_def)

lemma page1_nonempty: "u ''big sale today. prices are low.'' \<noteq> []"
  by (simp add: u_def)

lemma blank_ref: "list_all isspace (u ''  '')" "u ''  '' \<noteq> []"
  by (simp_all add: u_def isspace_def)

subsection \<open>Completion\<close>

text \<open>
  C4. In every cycle and for every row: a row whose \<open>completed\<close> flag is set is skipped
  entirely (no exception, and the world is left as it was: no fetch, no message, no
  update of the store). An update that \<open>process_row\<close> asks of the store never sets
  \<open>completed\<close> to false; it sets it to true only together with an empty list of pending
  keywords and only when \<open>shouldContinueCheck\<close> is false; and the store's row stays
  completed when it was.
\<close>

theorem completed_only_forward:
  assumes "process_row e r w = (x, w')"
  shows "(completed r \<longrightarrow> x = None \<and> w' = w) \<and>
         (\<forall>ud\<in>set (new_calls w w').
            u_completed ud \<noteq> Some False \<and>
            (u_completed ud = Some True \<longrightarrow> u_keywords ud = Some [] \<and> \<not> shouldContinueCheck r) \<and>
            (completed r \<longrightarrow> completed (apply_update ud r)))"
proof (cases "completed r \<or> (keyword_list r = [] \<and> \<not> checkUpdates r)")
  case True
  from process_row_skip_outcome [OF assms True] show ?thesis by simp
next
  case False
  then have n: "\<not> completed r" "\<not> (keyword_list r = [] \<and> \<not> checkUpdates r)" by auto
  from process_row_outcome [OF assms n]
  have "new_calls w w' = (if staged e r w \<noteq> no_update then [staged e r w] else [])" by blast
  then have "\<forall>ud\<in>set (new_calls w w'). ud = staged e r w" by (simp split: if_splits)
  moreover have "u_completed (staged e r w) \<noteq> Some False"
    "u_completed (staged e r w) = Some True \<longrightarrow>
       u_keywords (staged e r w) = Some [] \<and> \<not> shouldContinueCheck r"
    by (simp_all add: staged_def)
  ultimately show ?thesis using n(1) by auto
qed

theorem completed_only_forward_witness:
  "completed row_done \<and> process_row env1 row_done world0 = (None, world0) \<and>
   new_calls world0 (snd (process_row env1 row_sale world0)) = [staged env1 row_sale world0] \<and>
   u_completed (staged env1 row_sale world0) = Some True \<and>
   u_keywords (staged env1 row_sale world0) = Some [] \<and>
   \<not> shouldContinueCheck row_sale"
proof -
  have dn: "completed row_done" by (simp add: row_done_def)
  have skip: "process_row env1 row_done world0 = (None, world0)"
    using completed_only_forward [where e = env1 and r = row_done and w = world0, OF run_pair] dn
    by (simp add: prod_eq_iff)
  have act: "\<not> completed row_sale" "\<not> (keyword_list row_sale = [] \<and> \<not> checkUpdates row_sale)"
    by (simp add: row_sale_def) (simp add: keyword_list_sale)
  have ne: "staged env1 row_sale world0 \<noteq> no_update"
    by (rule staged_nonempty) (simp add: keyword_list_sale)
  from process_row_outcome [where e = env1 and w = world0, OF run_pair act] ne
  have nc: "new_calls world0 (snd (process_row env1 row_sale world0)) = [staged env1 row_sale world0]"
    by auto
  have uc: "u_completed (staged env1 row_sale world0) = Some True"
    by (simp add: staged_def keyword_list_sale still_pending_sale) (simp add: row_sale_def)
  from completed_only_forward [where e = env1 and r = row_sale and w = world0, OF run_pair] nc uc
  have "u_keywords (staged env1 row_sale world0) = Some [] \<and> \<not> shouldContinueCheck row_sale"
    by simp
  with dn skip nc uc show ?thesis by simp
qed


subsection \<open>Keywords that do not occur\<close>

lemma lower_sale: "lower (u ''sale'') = u ''sale''"
  by code_simp

lemma sale_present: "sublist (u ''sale'') (u ''big sale today. prices are low.'')"
  by code_simp

definition row_upper :: row where
  "row_upper = row_sale\<lparr>keywords_dict := Some [u ''Sale'']\<rparr>"

lemma lower_Sale: "lower (u ''Sale'') = u ''sale''"
  by code_simp

lemma Sale_absent: "\<not> sublist (u ''Sale'') (u ''big sale today. prices are low.'')"
  by code_simp

text \<open>
  C6, as it is stated, fails for a stored keyword that is not in lower case:
  \<open>process_row\<close> lower-cases the stored keywords before it looks for them. The stored
  keyword \<open>Sale\<close> does not occur in the text \<open>big sale today. prices are low.\<close>, yet
  the cycle finds \<open>sale\<close>, empties the pending list, appends a found entry and posts
  the keyword-found message.
\<close>

theorem keywords_case_folded_counterexample:
  "pendingKeywords row_upper = [u ''Sale''] \<and>
   \<not> sublist (u ''Sale'') (fetched_text env1 row_upper) \<and>
   new_calls world0 (snd (process_row env1 row_upper world0)) = [staged env1 row_upper world0] \<and>
   pendingKeywords (apply_update (staged env1 row_upper world0) row_upper) = [] \<and>
   existing_found (apply_update (staged env1 row_upper world0) row_upper)
     = [\<lparr>keyword = u ''sale'', foundAt = clock1 0\<rparr>] \<and>
   new_sent world0 (snd (process_row env1 row_upper world0))
     = [(Some (u ''42''), keyword_found_message [u ''sale''] (u ''http://a'') (clock1 0), False)]"
proof -
  have a: "\<not> completed row_upper" "telegramID row_upper = Some (u ''42'')"
    "url row_upper = u ''http://a''" "\<not> checkUpdates row_upper" "existing_found row_upper = []"
    by (simp_all add: row_upper_def row_sale_def existing_found_def)
  have pk: "pendingKeywords row_upper = [u ''Sale'']"
    by (simp add: pendingKeywords_def row_upper_def)
  have kl: "keyword_list row_upper = [u ''sale'']"
    by (simp add: keyword_list_pending pk lower_Sale)
  have fn: "found_now env1 row_upper = [u ''sale'']"
    by (simp add: found_now_def hits_def kl fetched_text_env1 sale_present)
  have sp: "still_pending env1 row_upper = []"
    by (simp add: still_pending_def fn kl)
  have act: "\<not> (keyword_list row_upper = [] \<and> \<not> checkUpdates row_upper)" by (simp add: kl)
  have nd: "\<not> diff_runs env1 row_upper" using a by (simp add: diff_runs_def)
  have ne: "staged env1 row_upper world0 \<noteq> no_update"
    by (rule staged_nonempty) (simp add: kl)
  have kp: "keyword_posts env1 row_upper world0
              = [(Some (u ''42''), keyword_found_message [u ''sale''] (u ''http://a'') (clock1 0), False)]"
    by (simp add: keyword_posts_def kl fn a truthy_def world0_fields) (simp add: env1_def u_def)
  from process_row_outcome [where e = env1 and w = world0, OF run_pair a(1) act] nd ne
  have o: "new_calls world0 (snd (process_row env1 row_upper world0)) = [staged env1 row_upper world0]"
    "new_sent world0 (snd (process_row env1 row_upper world0)) = keyword_posts env1 row_upper world0"
    by auto
  have st: "u_keywords (staged env1 row_upper world0) = Some []"
    "u_foundKeyword (staged env1 row_upper world0) = Some [\<lparr>keyword = u ''sale'', foundAt = clock1 0\<rparr>]"
    by (simp_all add: staged_def kl sp stamped_def fn a world0_fields) (simp add: env1_def)
  have "pendingKeywords (apply_update (staged env1 row_upper world0) row_upper) = []"
    "existing_found (apply_update (staged env1 row_upper world0) row_upper)
       = [\<lparr>keyword = u ''sale'', foundAt = clock1 0\<rparr>]"
    by (simp_all add: apply_update_def st pendingKeywords_def existing_found_def)
  with pk o kp show ?thesis by (simp add: fetched_text_env1 Sale_absent)
qed


text \<open>
  C6, amended. When the pending keywords of the row are lower-case strings (the data
  model's case-folded keyword set: \<open>lower kw = kw\<close>) and none of them occurs in the fetched
  text, every update of the store leaves the pending keywords and the found keywords
  as they were, and no keyword-found message is posted (every message posted, if any,
  is an update message).
\<close>

theorem keywords_unchanged_when_absent:
  assumes "process_row e r w = (x, w')"
    and "\<forall>kw\<in>set (pendingKeywords r). lower kw = kw"
    and "\<forall>kw\<in>set (pendingKeywords r). \<not> sublist kw (fetched_text e r)"
  shows "(\<forall>ud\<in>set (new_calls w w').
            pendingKeywords (apply_update ud r) = pendingKeywords r \<and>
            existing_found (apply_update ud r) = existing_found r) \<and>
         (\<forall>m\<in>set (new_sent w w'). is_update_of m)"
proof (cases "completed r \<or> (keyword_list r = [] \<and> \<not> checkUpdates r)")
  case True
  from process_row_skip_outcome [OF assms(1) True] show ?thesis by simp
next
  case False
  then have n: "\<not> completed r" "\<not> (keyword_list r = [] \<and> \<not> checkUpdates r)" by auto
  have kl: "keyword_list r = pendingKeywords r"
    using assms(2) by (simp add: keyword_list_pending map_idI)
  have none: "found_now e r = []"
    using assms(3) by (simp add: found_now_def kl hits_none)
  from process_row_outcome [OF assms(1) n]
  obtain ms where o: "new_calls w w' = (if staged e r w \<noteq> no_update then [staged e r w] else [])"
    "new_sent w w' = keyword_posts e r w @ ms" "\<forall>m\<in>set ms. is_update_of m"
    by blast
  have "\<forall>ud\<in>set (new_calls w w'). ud = staged e r w" using o(1) by (simp split: if_splits)
  moreover have "pendingKeywords (apply_update (staged e r w) r) = pendingKeywords r"
    using none kl
    by (auto simp: apply_update_def staged_def still_pending_def pendingKeywords_def
             split: option.splits)
  moreover have "existing_found (apply_update (staged e r w) r) = existing_found r"
    using none by (simp add: apply_update_def staged_def stamped_def existing_found_def)
  moreover have "keyword_posts e r w = []" using none by (simp add: keyword_posts_def)
  ultimately show ?thesis using o(2,3) by auto
qed

theorem keywords_unchanged_when_absent_witness:
  "lower (u ''rent'') = u ''rent'' \<and> lower (u ''loan'') = u ''loan'' \<and>
   \<not> sublist (u ''rent'') (fetched_text env1 row_rent) \<and>
   \<not> sublist (u ''loan'') (fetched_text env1 row_rent) \<and>
   pendingKeywords row_rent = [u ''rent'', u ''loan''] \<and>
   new_calls world0 (snd (process_row env1 row_rent world0)) = [staged env1 row_rent world0] \<and>
   pendingKeywords (apply_update (staged env1 row_rent world0) row_rent) = [u ''rent'', u ''loan''] \<and>
   existing_found (apply_update (staged env1 row_rent world0) row_rent) = [] \<and>
   new_sent world0 (snd (process_row env1 row_rent world0)) = []"
proof -
  have pk: "pendingKeywords row_rent = [u ''rent'', u ''loan'']"
    by (simp add: pendingKeywords_def row_rent_def)
  have ef: "existing_found row_rent = []"
    by (simp add: existing_found_def row_rent_def row_sale_def)
  have h1: "\<forall>kw\<in>set (pendingKeywords row_rent). lower kw = kw"
    by (simp add: pk lower_rent)
  have h2: "\<forall>kw\<in>set (pendingKeywords row_rent). \<not> sublist kw (fetched_text env1 row_rent)"
    by (simp add: pk fetched_text_env1 absent_rent)
  have act: "\<not> completed row_rent" "\<not> (keyword_list row_rent = [] \<and> \<not> checkUpdates row_rent)"
    by (simp add: row_rent_def row_sale_def) (simp add: keyword_list_rent)
  have ne: "staged env1 row_rent world0 \<noteq> no_update"
    by (rule staged_nonempty) (simp add: keyword_list_rent)
  from process_row_outcome [where e = env1 and w = world0, OF run_pair act] ne
  obtain ms where nc: "new_calls world0 (snd (process_row env1 row_rent world0)) = [staged env1 row_rent world0]"
    and ns: "new_sent world0 (snd (process_row env1 row_rent world0)) = keyword_posts env1 row_rent world0 @ ms"
    and ms: "\<not> diff_runs env1 row_rent \<longrightarrow> ms = []"
    by auto
  have "\<not> diff_runs env1 row_rent" by (simp add: diff_runs_def row_rent_def row_sale_def)
  moreover have "keyword_posts env1 row_rent world0 = []"
    by (simp add: keyword_posts_def found_now_rent)
  ultimately have sent0: "new_sent world0 (snd (process_row env1 row_rent world0)) = []"
    using ns ms by simp
  from keywords_unchanged_when_absent [where e = env1 and w = world0, OF run_pair h1 h2] nc
  have "pendingKeywords (apply_update (staged env1 row_rent world0) row_rent) = pendingKeywords row_rent"
    "existing_found (apply_update (staged env1 row_rent world0) row_rent) = existing_found row_rent"
    by simp_all
  with pk ef nc sent0 show ?thesis
    by (simp add: lower_rent fetched_text_env1 absent_rent)
qed

subsection \<open>The baseline of the diff\<close>

text \<open>
  C7. With \<open>checkUpdates\<close> set and an empty stored reference, the update block does
  nothing whatever the new text is (no change record, no log entry, no clock reading,
  no message), and the cycle stages neither \<open>Updates\<close> nor \<open>isUpdated\<close> and posts no
  update message. In any cycle, \<open>Updates\<close> is staged only when \<open>checkUpdates\<close> is set,
  the stored reference is not empty and the fetched text differs from it.
\<close>

theorem no_baseline_no_changes:
  assumes "process_row e r w = (x, w')"
  shows "(checkUpdates r \<and> old_reference r = [] \<longrightarrow>
            process_updates e r T ud w0 = (ud, [], w0) \<and>
            (\<forall>ud\<in>set (new_calls w w'). u_Updates ud = None \<and> u_isUpdated ud = None) \<and>
            (\<forall>m\<in>set (new_sent w w'). \<not> is_update_of m)) \<and>
         (\<forall>ud\<in>set (new_calls w w').
            u_Updates ud \<noteq> None \<longrightarrow>
              checkUpdates r \<and> old_reference r \<noteq> [] \<and> fetched_text e r \<noteq> old_reference r)"
proof (cases "completed r \<or> (keyword_list r = [] \<and> \<not> checkUpdates r)")
  case True
  have "old_reference r = [] \<Longrightarrow> process_updates e r T ud w0 = (ud, [], w0)"
    by (rule process_updates_idle) (simp add: strip_def rstrip_def)
  with process_row_skip_outcome [OF assms True] show ?thesis by simp
next
  case False
  then have n: "\<not> completed r" "\<not> (keyword_list r = [] \<and> \<not> checkUpdates r)" by auto
  from process_row_outcome [OF assms n]
  obtain ms where o: "new_calls w w' = (if staged e r w \<noteq> no_update then [staged e r w] else [])"
    "new_sent w w' = keyword_posts e r w @ ms" "\<forall>m\<in>set ms. is_update_of m"
    "\<not> diff_runs e r \<longrightarrow> ms = []"
    by blast
  have all: "\<forall>ud\<in>set (new_calls w w'). ud = staged e r w" using o(1) by (simp split: if_splits)
  have kp: "\<forall>m\<in>set (keyword_posts e r w). \<not> is_update_of m"
    by (simp add: keyword_posts_def is_update_of_def)
  have idle: "old_reference r = [] \<Longrightarrow> process_updates e r T ud w0 = (ud, [], w0)"
    by (rule process_updates_idle) (simp add: strip_def rstrip_def)
  have nodiff: "old_reference r = [] \<Longrightarrow> \<not> diff_runs e r"
    by (simp add: diff_runs_def strip_def rstrip_def)
  have st: "u_Updates (staged e r w) \<noteq> None \<longrightarrow> diff_runs e r"
    "\<not> diff_runs e r \<longrightarrow> u_Updates (staged e r w) = None \<and> u_isUpdated (staged e r w) = None"
    by (simp_all add: staged_def)
  have dr: "diff_runs e r \<Longrightarrow>
      checkUpdates r \<and> old_reference r \<noteq> [] \<and> fetched_text e r \<noteq> old_reference r"
    by (auto simp: diff_runs_def strip_def rstrip_def)
  show ?thesis
  proof (intro conjI impI)
    assume a: "checkUpdates r \<and> old_reference r = []"
    then show "process_updates e r T ud w0 = (ud, [], w0)" using idle by simp
    from a nodiff st(2) all
    show "\<forall>ud\<in>set (new_calls w w'). u_Updates ud = None \<and> u_isUpdated ud = None" by auto
    from a nodiff o(2,4) kp show "\<forall>m\<in>set (new_sent w w'). \<not> is_update_of m" by auto
  next
    show "\<forall>ud\<in>set (new_calls w w').
            u_Updates ud \<noteq> None \<longrightarrow>
              checkUpdates r \<and> old_reference r \<noteq> [] \<and> fetched_text e r \<noteq> old_reference r"
      using all st(1) dr by auto
  qed
qed

theorem no_baseline_no_changes_witness:
  "checkUpdates row_fresh \<and> old_reference row_fresh = [] \<and>
   process_updates env1 row_fresh (fetched_text env1 row_fresh) no_update world0
     = (no_update, [], world0) \<and>
   new_calls world0 (snd (process_row env1 row_fresh world0)) = [staged env1 row_fresh world0] \<and>
   u_reference (staged env1 row_fresh world0) = Some (u ''big sale today. prices are low.'') \<and>
   u_Updates (staged env1 row_fresh world0) = None \<and>
   u_isUpdated (staged env1 row_fresh world0) = None \<and>
   new_sent world0 (snd (process_row env1 row_fresh world0)) = [] \<and>
   new_calls world0 (snd (process_row env1 row_watch world0)) = [staged env1 row_watch world0] \<and>
   u_Updates (staged env1 row_watch world0) \<noteq> None \<and>
   checkUpdates row_watch \<and> old_reference row_watch \<noteq> [] \<and>
   fetched_text env1 row_watch \<noteq> old_reference row_watch"
proof -
  have f: "checkUpdates row_fresh" "old_reference row_fresh = []" "\<not> completed row_fresh"
    "keyword_list row_fresh = []"
    by (simp_all add: row_fresh_def row_sale_def old_reference_def keyword_list_def)
  have act: "\<not> (keyword_list row_fresh = [] \<and> \<not> checkUpdates row_fresh)" using f by simp
  have nd: "\<not> diff_runs env1 row_fresh" using f by (simp add: diff_runs_def strip_def rstrip_def)
  have ref: "u_reference (staged env1 row_fresh world0) = Some (u ''big sale today. prices are low.'')"
    using f page1_nonempty by (simp add: staged_def fetched_text_env1)
  then have ne: "staged env1 row_fresh world0 \<noteq> no_update" by (auto simp: no_update_def)
  from process_row_outcome [where e = env1 and w = world0, OF run_pair f(3) act] ne
  obtain ms where nc: "new_calls world0 (snd (process_row env1 row_fresh world0)) = [staged env1 row_fresh world0]"
    and ns: "new_sent world0 (snd (process_row env1 row_fresh world0)) = keyword_posts env1 row_fresh world0 @ ms"
    and ms: "\<not> diff_runs env1 row_fresh \<longrightarrow> ms = []"
    by auto
  have sent0: "new_sent world0 (snd (process_row env1 row_fresh world0)) = []"
    using ns ms nd f by (simp add: keyword_posts_def)
  note fresh = no_baseline_no_changes [where e = env1 and r = row_fresh and w = world0
      and T = "fetched_text env1 row_fresh" and ud = no_update and ?w0.0 = world0, OF run_pair]
  from fresh f nc
  have idle: "process_updates env1 row_fresh (fetched_text env1 row_fresh) no_update world0
                = (no_update, [], world0)"
    and none: "u_Updates (staged env1 row_fresh world0) = None"
      "u_isUpdated (staged env1 row_fresh world0) = None"
    by simp_all
  have g: "checkUpdates row_watch" "\<not> completed row_watch" "keyword_list row_watch = []"
    "old_reference row_watch = u ''big sale today. prices are high.''"
    by (simp_all add: row_watch_def row_fresh_def row_sale_def old_reference_def keyword_list_def)
  have act': "\<not> (keyword_list row_watch = [] \<and> \<not> checkUpdates row_watch)" using g by simp
  have dr: "diff_runs env1 row_watch"
    using g strip_watch watch_differs by (simp add: diff_runs_def fetched_text_env1)
  then have upd: "u_Updates (staged env1 row_watch world0) \<noteq> None" by (simp add: staged_def)
  then have ne': "staged env1 row_watch world0 \<noteq> no_update" by (auto simp: no_update_def)
  from process_row_outcome [where e = env1 and w = world0, OF run_pair g(2) act'] ne'
  have nc': "new_calls world0 (snd (process_row env1 row_watch world0)) = [staged env1 row_watch world0]"
    by auto
  from no_baseline_no_changes [where e = env1 and r = row_watch and w = world0, OF run_pair] nc' upd
  have "checkUpdates row_watch \<and> old_reference row_watch \<noteq> [] \<and>
        fetched_text env1 row_watch \<noteq> old_reference row_watch"
    by simp
  with f idle nc ref none sent0 nc' upd show ?thesis by simp
qed

text \<open>
  C8. A stored reference made of whitespace only is treated as the empty one: the
  update block does nothing (and does what it does for the row with the empty
  reference), whatever the new text is, and the cycle stages neither \<open>Updates\<close> nor
  \<open>isUpdated\<close> and posts no update message.
\<close>

theorem blank_reference_no_changes:
  assumes "process_row e r w = (x, w')"
    and "\<forall>c\<in>set (old_reference r). isspace c"
  shows "process_updates e r T ud w0 = (ud, [], w0) \<and>
         process_updates e r T ud w0 = process_updates e (r\<lparr>reference := Some []\<rparr>) T ud w0 \<and>
         (\<forall>ud\<in>set (new_calls w w'). u_Updates ud = None \<and> u_isUpdated ud = None) \<and>
         (\<forall>m\<in>set (new_sent w w'). \<not> is_update_of m)"
proof -
  have blank: "strip (old_reference r) = []" using assms(2) by (rule strip_blank)
  have idle: "process_updates e r T ud w0 = (ud, [], w0)"
    by (rule process_updates_idle) (simp add: blank)
  have idle': "process_updates e (r\<lparr>reference := Some []\<rparr>) T ud w0 = (ud, [], w0)"
    by (rule process_updates_idle) (simp add: old_reference_def strip_def rstrip_def)
  have nodiff: "\<not> diff_runs e r" by (simp add: diff_runs_def blank)
  show ?thesis
  proof (cases "completed r \<or> (keyword_list r = [] \<and> \<not> checkUpdates r)")
    case True
    from process_row_skip_outcome [OF assms(1) True] idle idle' show ?thesis by simp
  next
    case False
    then have n: "\<not> completed r" "\<not> (keyword_list r = [] \<and> \<not> checkUpdates r)" by auto
    from process_row_outcome [OF assms(1) n]
    obtain ms where o: "new_calls w w' = (if staged e r w \<noteq> no_update then [staged e r w] else [])"
      "new_sent w w' = keyword_posts e r w @ ms" "\<not> diff_runs e r \<longrightarrow> ms = []"
      by blast
    have all: "\<forall>ud\<in>set (new_calls w w'). ud = staged e r w" using o(1) by (simp split: if_splits)
    have kp: "\<forall>m\<in>set (keyword_posts e r w). \<not> is_update_of m"
      by (simp add: keyword_posts_def is_update_of_def)
    have st: "u_Updates (staged e r w) = None \<and> u_isUpdated (staged e r w) = None"
      using nodiff by (simp add: staged_def)
    from all st have "\<forall>ud\<in>set (new_calls w w'). u_Updates ud = None \<and> u_isUpdated ud = None"
      by auto
    moreover from o(2,3) nodiff kp have "\<forall>m\<in>set (new_sent w w'). \<not> is_update_of m" by auto
    ultimately show ?thesis using idle idle' by simp
  qed
qed

theorem blank_reference_no_changes_witness:
  "old_reference row_blank = u ''  '' \<and> u ''  '' \<noteq> [] \<and> list_all isspace (u ''  '') \<and>
   checkUpdates row_blank \<and> fetched_text env1 row_blank \<noteq> old_reference row_blank \<and>
   process_updates env1 row_blank (fetched_text env1 row_blank) no_update world0
     = (no_update, [], world0) \<and>
   new_calls world0 (snd (process_row env1 row_blank world0)) = [staged env1 row_blank world0] \<and>
   u_Updates (staged env1 row_blank world0) = None \<and>
   u_isUpdated (staged env1 row_blank world0) = None \<and>
   new_sent world0 (snd (process_row env1 row_blank world0)) = []"
proof -
  have b: "old_reference row_blank = u ''  ''" "checkUpdates row_blank" "\<not> completed row_blank"
    "keyword_list row_blank = []"
    by (simp_all add: row_blank_def row_fresh_def row_sale_def old_reference_def keyword_list_def)
  have sp: "\<forall>c\<in>set (old_reference row_blank). isspace c"
    using blank_ref(1) by (simp add: b list_all_iff)
  have differs: "fetched_text env1 row_blank \<noteq> old_reference row_blank"
    by (simp add: fetched_text_env1 b u_def)
  have act: "\<not> (keyword_list row_blank = [] \<and> \<not> checkUpdates row_blank)" using b by simp
  have ne: "staged env1 row_blank world0 \<noteq> no_update"
  proof
    assume "staged env1 row_blank world0 = no_update"
    then have "u_reference (staged env1 row_blank world0) = u_reference no_update" by simp
    with differs show False by (simp add: staged_def no_update_def)
  qed
  have nd: "\<not> diff_runs env1 row_blank"
    using sp by (simp add: diff_runs_def strip_blank)
  from process_row_outcome [where e = env1 and w = world0, OF run_pair b(3) act] ne
  obtain ms where nc: "new_calls world0 (snd (process_row env1 row_blank world0)) = [staged env1 row_blank world0]"
    and ns: "new_sent world0 (snd (process_row env1 row_blank world0)) = keyword_posts env1 row_blank world0 @ ms"
    and ms: "\<not> diff_runs env1 row_blank \<longrightarrow> ms = []"
    by auto
  have sent0: "new_sent world0 (snd (process_row env1 row_blank world0)) = []"
    using ns ms nd b by (simp add: keyword_posts_def)
  from blank_reference_no_changes [where e = env1 and r = row_blank and w = world0
      and T = "fetched_text env1 row_blank" and ud = no_update and ?w0.0 = world0, OF run_pair sp] nc
  have "process_updates env1 row_blank (fetched_text env1 row_blank) no_update world0
          = (no_update, [], world0)"
    "u_Updates (staged env1 row_blank world0) = None"
    "u_isUpdated (staged env1 row_blank world0) = None"
    by simp_all
  with b differs nc sent0 blank_ref show ?thesis by simp
qed

subsection \<open>What a cycle with keywords stages\<close>





subsection \<open>A store that fails, and the length of a message\<close>

definition clock0 :: "nat \<Rightarrow> ustr" where
  "clock0 n = u ''2025-01-01 00:00:00''"

lemma process_row_effects:
  assumes "\<not> completed r" and "keyword_list r \<noteq> []"
  shows "fst (process_row e r w)
           = (if update_raises e (row_id r) (staged e r w) then Some APIError else None) \<and>
         fetched (snd (process_row e r w)) = fetched w @ [url r] \<and>
         caught (snd (process_row e r w)) = caught w \<and>
         store_calls (snd (process_row e r w)) = store_calls w @ [(row_id r, staged e r w)]"
proof -
  have n: "\<not> (keyword_list r = [] \<and> \<not> checkUpdates r)" using assms(2) by simp
  have ne: "staged e r w \<noteq> no_update" using assms(2) by (rule staged_nonempty)
  from process_row_active [OF assms(1) n, of e w]
  obtain w3 where a: "process_row e r w = push_update e r (staged e r w) w3"
    "store_calls w3 = store_calls w" "fetched w3 = fetched w @ [url r]" "caught w3 = caught w"
    by blast
  show ?thesis unfolding a(1) using ne a(2,3,4) by (simp add: push_update_def)
qed

definition row_two :: row where
  "row_two = row_sale\<lparr>row_id := 2, url := u ''http://b''\<rparr>"

definition env_failing :: env where
  "env_failing = env1\<lparr>select_rows := Inr [row_rent, row_two],
                      update_raises := (\<lambda>i ud. i = 1)\<rparr>"

definition env_working :: env where
  "env_working = env1\<lparr>select_rows := Inr [row_rent, row_two]\<rparr>"

lemma keyword_list_two: "keyword_list row_two = [u ''sale'', u ''today'']"
  using keyword_list_sale by (simp add: keyword_list_def row_two_def)

text \<open>
  C2. The claim says that a failing store update for one row is logged and the cycle
  goes on with the next rows. In \<open>main\<close> the only handler is around the whole loop.
  With two rows and a store that raises on the update of row 1, the cycle ends after
  row 1: the URL of row 2 is never fetched and the exception is caught once. With a
  store that does not raise, both rows are processed.
\<close>

theorem store_failure_ends_cycle:
  "fetched (main env_failing world0) = [u ''http://a''] \<and>
   map fst (store_calls (main env_failing world0)) = [1] \<and>
   caught (main env_failing world0) = [APIError] \<and>
   fetched (main env_working world0) = [u ''http://a'', u ''http://b''] \<and>
   map fst (store_calls (main env_working world0)) = [1, 2] \<and>
   caught (main env_working world0) = []"
proof -
  have r1: "\<not> completed row_rent" "row_id row_rent = 1" "url row_rent = u ''http://a''"
    by (simp_all add: row_rent_def row_sale_def)
  have r2: "\<not> completed row_two" "row_id row_two = 2" "url row_two = u ''http://b''"
    by (simp_all add: row_two_def row_sale_def)
  have k1: "keyword_list row_rent \<noteq> []" by (simp add: keyword_list_rent)
  have k2: "keyword_list row_two \<noteq> []" by (simp add: keyword_list_two)
  have sel: "select_rows env_failing = Inr [row_rent, row_two]"
    "select_rows env_working = Inr [row_rent, row_two]"
    "\<And>ud. update_raises env_failing (Suc 0) ud" "\<And>i ud. \<not> update_raises env_working i ud"
    by (simp_all add: env_failing_def env_working_def env1_def)
  note f1 = process_row_effects [OF r1(1) k1, of env_failing world0]
  note g1 = process_row_effects [OF r1(1) k1, of env_working world0]
  note g2 = process_row_effects [OF r2(1) k2, of env_working "snd (process_row env_working row_rent world0)"]
  have p1: "process_row env_failing row_rent world0
              = (Some APIError, snd (process_row env_failing row_rent world0))"
    using f1 by (simp add: prod_eq_iff r1 sel)
  have q1: "process_row env_working row_rent world0
              = (None, snd (process_row env_working row_rent world0))"
    using g1 by (simp add: prod_eq_iff sel)
  have q2: "process_row env_working row_two (snd (process_row env_working row_rent world0))
              = (None, snd (process_row env_working row_two
                              (snd (process_row env_working row_rent world0))))"
    using g2 by (simp add: prod_eq_iff sel)
  have failing: "main env_failing world0
      = (snd (process_row env_failing row_rent world0))
          \<lparr>caught := caught (snd (process_row env_failing row_rent world0)) @ [APIError]\<rparr>"
    by (simp add: main_def sel) (subst p1, simp)
  have working: "main env_working world0
      = snd (process_row env_working row_two (snd (process_row env_working row_rent world0)))"
    by (simp add: main_def sel) (subst q1, simp, subst q2, simp)
  show ?thesis
    unfolding failing working using f1 g1 g2 by (simp add: r1 r2 world0_fields)
qed

lemma keyword_found_message_length:
  "length (keyword_found_message [kw] url' ts) = 72 + length kw + length url' + length ts"
  by (simp add: keyword_found_message_def u_def nl_def)

lemma format_updates_message_bounded:
  "length (format_updates_message url' updates new_detected_changes) \<le> 4096"
  by (simp add: format_updates_message_def Let_def truncation_marker_def u_def nl_def)

lemma format_updates_message_truncates:
  "4096 < length (updates_message_text url' updates new_detected_changes) \<Longrightarrow>
   format_updates_message url' updates new_detected_changes
     = take 4000 (updates_message_text url' updates new_detected_changes) @ truncation_marker"
  by (simp add: format_updates_message_def)

definition row_long :: row where
  "row_long = row_sale\<lparr>url := replicate 5000 97, keywords_dict := Some [u ''sale'']\<rparr>"

lemma clock1_length: "length (clock1 n) = 19"
  by (simp add: clock1_def u_def)

text \<open>
  C3. The claim bounds every notification message by 4096 characters. The bound holds
  for \<open>format_updates_message\<close> (the two lemmas before this one), but the keyword-found
  message is built in \<open>process_row\<close> with no length check. At the row below (one keyword
  that matches, a URL of 5000 characters) the message posted to Telegram has 5095
  characters.
\<close>

theorem keyword_message_exceeds_limit:
  "new_sent world0 (snd (process_row env1 row_long world0))
     = [(Some (u ''42''),
         keyword_found_message [u ''sale''] (replicate 5000 97) (clock1 0), False)] \<and>
   length (keyword_found_message [u ''sale''] (replicate 5000 97) (clock1 0)) = 5095"
proof -
  have a: "\<not> completed row_long" "telegramID row_long = Some (u ''42'')"
    "url row_long = replicate 5000 97" "\<not> checkUpdates row_long"
    by (simp_all add: row_long_def row_sale_def)
  have kl: "keyword_list row_long = [u ''sale'']"
    by (simp add: keyword_list_def row_long_def lower_sale)
  have fn: "found_now env1 row_long = [u ''sale'']"
    by (simp add: found_now_def hits_def kl fetched_text_env1 sale_present)
  have act: "\<not> (keyword_list row_long = [] \<and> \<not> checkUpdates row_long)" by (simp add: kl)
  have nd: "\<not> diff_runs env1 row_long" using a by (simp add: diff_runs_def)
  have kp: "keyword_posts env1 row_long world0
              = [(Some (u ''42''),
                  keyword_found_message [u ''sale''] (replicate 5000 97) (clock1 0), False)]"
    by (simp add: keyword_posts_def kl fn a truthy_def world0_fields) (simp add: env1_def u_def)
  from process_row_outcome [where e = env1 and w = world0, OF run_pair a(1) act] nd
  have "new_sent world0 (snd (process_row env1 row_long world0)) = keyword_posts env1 row_long world0"
    by auto
  then show ?thesis
    by (simp add: kp keyword_found_message_length clock1_length) (simp add: u_def)
qed

subsection \<open>The word diff of one pair of sentences\<close>









subsection \<open>A text against itself\<close>

text \<open>
  C5. For every text \<open>T\<close>, the diff of \<open>T\<close> against itself is the empty sequence of
  changes, and it takes no clock reading: every sentence is paired with itself, and
  a pair of equal sentences is skipped before the word diff.
\<close>

theorem get_diff_same_text: "get_diff clock t T T = ([], t)"
  by (simp add: get_diff_def get_diff_loop_same)

theorem get_diff_same_text_witness:
  "get_diff clock0 0 (u ''Hello world. Bye!'') (u ''Hello world. Bye!'') = ([], 0)"
  using get_diff_same_text [of clock0 0 "u ''Hello world. Bye!''"] by simp

end
